theory Spec2Isabelle
  imports Complex_Main "HOL-Library.Monad_Syntax"
begin

section \<open>Scalars\<close>

text \<open>
  The grids of \<^verbatim>\<open>heat.cu\<close> hold C \<^verbatim>\<open>float\<close>s. The kernels only add, subtract,
  multiply and compare them, so the arithmetic is a parameter of every definition
  below: a record of the operations on a scalar type \<open>'a\<close>. What is proved for
  every such record holds for the hardware's single precision arithmetic, whatever
  it rounds to. \<open>fconst\<close> is the value a literal or a converted integer denotes
  (\<^verbatim>\<open>0.25f\<close>, the \<^verbatim>\<open>4\<close> of \<^verbatim>\<open>inSrc[offset]*4\<close>, the \<^verbatim>\<open>0\<close> of \<^verbatim>\<open>cptr[offset] != 0\<close>),
  and \<open>fne\<close> is the comparison \<^verbatim>\<open>!=\<close>.
\<close>

record 'a float_ops =
  fadd :: "'a \<Rightarrow> 'a \<Rightarrow> 'a"
  fsub :: "'a \<Rightarrow> 'a \<Rightarrow> 'a"
  fmul :: "'a \<Rightarrow> 'a \<Rightarrow> 'a"
  fdiv :: "'a \<Rightarrow> 'a \<Rightarrow> 'a"
  fne :: "'a \<Rightarrow> 'a \<Rightarrow> bool"
  fconst :: "real \<Rightarrow> 'a"

text \<open>
  Exact arithmetic on the reals: the instance on which concrete grids are evaluated.
  On the values used there (0, 1, -1, 1/4, 1/2 and small integers) single precision
  arithmetic is exact as well.
\<close>

definition exact_arith :: "real float_ops" where
  "exact_arith = \<lparr>fadd = (+), fsub = (-), fmul = (*), fdiv = (/), fne = (\<noteq>), fconst = (\<lambda>r. r)\<rparr>"

text \<open>The macros of \<^verbatim>\<open>heat.cu\<close>.\<close>

definition DIM :: nat where
  "DIM = 1024"

definition MAX_TEMP :: "'a float_ops \<Rightarrow> 'a" where
  "MAX_TEMP ops = fconst ops 1.0"

definition MIN_TEMP :: "'a float_ops \<Rightarrow> 'a" where
  "MIN_TEMP ops = fconst ops 0.0001"

definition SPEED :: "'a float_ops \<Rightarrow> 'a" where
  "SPEED ops = fconst ops 0.25"

section \<open>Device memory\<close>

text \<open>
  A device pointer names an allocation; device memory maps each allocated pointer to
  its array of scalars. A read or write outside the array (or through a pointer that
  was never allocated) is undefined behaviour in CUDA: here it is the value \<open>None\<close>.
\<close>

type_synonym ptr = nat

type_synonym 'a device = "ptr \<rightharpoonup> 'a list"

definition load :: "'a device \<Rightarrow> ptr \<Rightarrow> int \<Rightarrow> 'a option" where
  "load m p i =
     (case m p of
        None \<Rightarrow> None
      | Some buf \<Rightarrow> if 0 \<le> i \<and> i < int (length buf) then Some (buf ! nat i) else None)"

definition store :: "'a device \<Rightarrow> ptr \<Rightarrow> int \<Rightarrow> 'a \<Rightarrow> 'a device option" where
  "store m p i v =
     (case m p of
        None \<Rightarrow> None
      | Some buf \<Rightarrow>
          if 0 \<le> i \<and> i < int (length buf) then Some (m(p \<mapsto> buf[nat i := v])) else None)"

section \<open>Threads and kernel launches\<close>

record dim3 =
  dim_x :: nat
  dim_y :: nat

record cuda_thread =
  threadIdx :: dim3
  blockIdx :: dim3
  blockDim :: dim3
  gridDim :: dim3

text \<open>
  \<^verbatim>\<open>kernel<<<blocks,threads>>>(...)\<close> runs the kernel's body once for every thread of
  every block. The threads of one launch are run one after the other, in the order of
  \<open>threads_of\<close>; a fault in one thread is a fault of the launch. For the two kernels
  of this program the order is immaterial (\<open>launch_order_irrelevant\<close> below): a thread
  writes its own cell only, and \<open>blend_kernel\<close> reads an array it does not write.

  The built-in indices are unsigned and the kernels' \<open>x\<close>, \<open>y\<close>, \<open>offset\<close> and the four
  neighbour indices are C \<^verbatim>\<open>int\<close>s. They are natural numbers and integers here, without
  wrap-around: in the launch of \<open>anim_gpu\<close> every value the index arithmetic produces
  lies between \<open>- DIM\<close> and \<open>DIM * DIM + DIM\<close> (part of the totality theorem below).
\<close>

definition threads_of :: "dim3 \<Rightarrow> dim3 \<Rightarrow> cuda_thread list" where
  "threads_of blocks threads =
     [\<lparr>threadIdx = \<lparr>dim_x = tx, dim_y = ty\<rparr>, blockIdx = \<lparr>dim_x = bx, dim_y = by\<rparr>,
        blockDim = threads, gridDim = blocks\<rparr>.
        by \<leftarrow> [0..<dim_y blocks], bx \<leftarrow> [0..<dim_x blocks],
        ty \<leftarrow> [0..<dim_y threads], tx \<leftarrow> [0..<dim_x threads]]"

fun run_threads :: "(cuda_thread \<Rightarrow> 's \<Rightarrow> 's option) \<Rightarrow> cuda_thread list \<Rightarrow> 's \<Rightarrow> 's option" where
  "run_threads body [] m = Some m"
| "run_threads body (t # ts) m =
     (case body t m of None \<Rightarrow> None | Some m' \<Rightarrow> run_threads body ts m')"

definition launch :: "dim3 \<Rightarrow> dim3 \<Rightarrow> (cuda_thread \<Rightarrow> 's \<Rightarrow> 's option) \<Rightarrow> 's \<Rightarrow> 's option" where
  "launch blocks threads body m = run_threads body (threads_of blocks threads) m"

section \<open>The kernels\<close>

text \<open>
  \<open>blend_kernel\<close> takes the macro \<^verbatim>\<open>DIM\<close> as its parameter \<open>D\<close>; the reference
  configuration is \<open>D = DIM\<close>.
\<close>

definition blend_kernel ::
  "'a float_ops \<Rightarrow> int \<Rightarrow> cuda_thread \<Rightarrow> ptr \<Rightarrow> ptr \<Rightarrow> 'a device \<Rightarrow> 'a device option" where
  "blend_kernel ops D t outSrc inSrc m =
     (let x = int (dim_x (threadIdx t) + dim_x (blockIdx t) * dim_x (blockDim t));
          y = int (dim_y (threadIdx t) + dim_y (blockIdx t) * dim_y (blockDim t));
          offset = x + y * int (dim_x (blockDim t)) * int (dim_x (gridDim t));
          left = offset - 1;
          right = offset + 1;
          left = (if x = 0 then left + 1 else left);
          right = (if x = D - 1 then right - 1 else right);
          top = offset - D;
          bottom = offset + D;
          top = (if y = 0 then top + D else top);
          bottom = (if y = D - 1 then bottom - D else bottom)
      in do {
        c \<leftarrow> load m inSrc offset;
        tp \<leftarrow> load m inSrc top;
        bt \<leftarrow> load m inSrc bottom;
        lf \<leftarrow> load m inSrc left;
        rt \<leftarrow> load m inSrc right;
        c4 \<leftarrow> load m inSrc offset;
        store m outSrc offset
          (fadd ops c (fmul ops (SPEED ops)
             (fsub ops (fadd ops (fadd ops (fadd ops tp bt) lf) rt) (fmul ops c4 (fconst ops 4)))))
      })"

definition copy_const_kernel ::
  "'a float_ops \<Rightarrow> cuda_thread \<Rightarrow> ptr \<Rightarrow> ptr \<Rightarrow> 'a device \<Rightarrow> 'a device option" where
  "copy_const_kernel ops t iptr cptr m =
     (let x = int (dim_x (threadIdx t) + dim_x (blockIdx t) * dim_x (blockDim t));
          y = int (dim_y (threadIdx t) + dim_y (blockIdx t) * dim_y (blockDim t));
          offset = x + y * int (dim_x (blockDim t)) * int (dim_x (gridDim t))
      in do {
        c \<leftarrow> load m cptr offset;
        if fne ops c (fconst ops 0)
        then do { v \<leftarrow> load m cptr offset; store m iptr offset v }
        else Some m
      })"

text \<open>
  The cell a thread works on, and the five indices \<open>blend_kernel\<close> computes for it
  (the same expressions as in the kernel), for statements about the indices alone.
\<close>

definition cell_x :: "cuda_thread \<Rightarrow> nat" where
  "cell_x t = dim_x (threadIdx t) + dim_x (blockIdx t) * dim_x (blockDim t)"

definition cell_y :: "cuda_thread \<Rightarrow> nat" where
  "cell_y t = dim_y (threadIdx t) + dim_y (blockIdx t) * dim_y (blockDim t)"

record blend_idx =
  i_offset :: int
  i_left :: int
  i_right :: int
  i_top :: int
  i_bottom :: int

definition blend_indices :: "int \<Rightarrow> cuda_thread \<Rightarrow> blend_idx" where
  "blend_indices D t =
     (let x = int (dim_x (threadIdx t) + dim_x (blockIdx t) * dim_x (blockDim t));
          y = int (dim_y (threadIdx t) + dim_y (blockIdx t) * dim_y (blockDim t));
          offset = x + y * int (dim_x (blockDim t)) * int (dim_x (gridDim t));
          left = offset - 1;
          right = offset + 1;
          left = (if x = 0 then left + 1 else left);
          right = (if x = D - 1 then right - 1 else right);
          top = offset - D;
          bottom = offset + D;
          top = (if y = 0 then top + D else top);
          bottom = (if y = D - 1 then bottom - D else bottom)
      in \<lparr>i_offset = offset, i_left = left, i_right = right, i_top = top, i_bottom = bottom\<rparr>)"

section \<open>The frame update\<close>

text \<open>
  Of \<^verbatim>\<open>DataBlock\<close>, the three device pointers of the simulation. The bitmap, the events
  and the timing fields belong to the display and the timer.
\<close>

record DataBlock =
  dev_inSrc :: ptr
  dev_outSrc :: ptr
  dev_constSrc :: ptr

text \<open>The launch configuration of \<open>anim_gpu\<close>: \<^verbatim>\<open>blocks(DIM/16,DIM/16)\<close>, \<^verbatim>\<open>threads(16,16)\<close>.\<close>

definition anim_blocks :: "nat \<Rightarrow> dim3" where
  "anim_blocks D = \<lparr>dim_x = D div 16, dim_y = D div 16\<rparr>"

definition anim_threads :: dim3 where
  "anim_threads = \<lparr>dim_x = 16, dim_y = 16\<rparr>"

text \<open>
  The body of the loop of \<open>anim_gpu\<close>: the two launches, then \<^verbatim>\<open>swap\<close> on the two
  pointers. The swap changes the \<open>DataBlock\<close> only.
\<close>

definition substep ::
  "'a float_ops \<Rightarrow> nat \<Rightarrow> dim3 \<Rightarrow> dim3 \<Rightarrow> DataBlock \<times> 'a device \<Rightarrow> (DataBlock \<times> 'a device) option" where
  "substep ops D blocks threads s =
     (case s of (d, m) \<Rightarrow> do {
        m1 \<leftarrow> launch blocks threads (\<lambda>t. copy_const_kernel ops t (dev_inSrc d) (dev_constSrc d)) m;
        m2 \<leftarrow> launch blocks threads (\<lambda>t. blend_kernel ops (int D) t (dev_outSrc d) (dev_inSrc d)) m1;
        Some (d\<lparr>dev_inSrc := dev_outSrc d, dev_outSrc := dev_inSrc d\<rparr>, m2)
      })"

function anim_loop ::
  "'a float_ops \<Rightarrow> nat \<Rightarrow> dim3 \<Rightarrow> dim3 \<Rightarrow> int \<Rightarrow> DataBlock \<times> 'a device \<Rightarrow> (DataBlock \<times> 'a device) option" where
  "anim_loop ops D blocks threads i s =
     (if i < 90
      then (case substep ops D blocks threads s of
              None \<Rightarrow> None
            | Some s' \<Rightarrow> anim_loop ops D blocks threads (i + 1) s')
      else Some s)"
  by pat_completeness auto
termination
  by (relation "measure (\<lambda>(ops, D, blocks, threads, i, s). nat (90 - i))") auto

declare anim_loop.simps [simp del]

text \<open>
  \<open>anim_gpu\<close> returns the \<open>DataBlock\<close>, the device memory and the grid it passes to
  \<^verbatim>\<open>float_to_color\<close>, the array at \<^verbatim>\<open>d->dev_inSrc\<close> after the loop. The colour mapping,
  the copy to the bitmap and the timing are outside the model.
\<close>

definition anim_gpu ::
  "'a float_ops \<Rightarrow> nat \<Rightarrow> DataBlock \<Rightarrow> 'a device \<Rightarrow> (DataBlock \<times> 'a device \<times> 'a list) option" where
  "anim_gpu ops D d m =
     (let blocks = anim_blocks D;
          threads = anim_threads
      in do {
        (d', m') \<leftarrow> anim_loop ops D blocks threads 0 (d, m);
        shown \<leftarrow> m' (dev_inSrc d');
        Some (d', m', shown)
      })"

section \<open>The initial data of \<open>main\<close>\<close>

text \<open>
  \<open>temp\<close> is the host array of \<open>DIM * DIM\<close> scalars that \<open>main\<close> allocates; its first
  contents are whatever \<^verbatim>\<open>malloc\<close> returned. \<open>seed_constSrc\<close> is the array copied to
  \<^verbatim>\<open>dev_constSrc\<close>; \<open>seed_inSrc\<close> continues on the same array and gives the one copied to
  \<^verbatim>\<open>dev_inSrc\<close>.
\<close>

definition seed_constSrc :: "'a float_ops \<Rightarrow> 'a list \<Rightarrow> 'a list" where
  "seed_constSrc ops temp =
     (let temp = fold (\<lambda>i temp.
                   let temp = temp[i := fconst ops 0];
                       x = i mod DIM;
                       y = i div DIM
                   in if x > 300 \<and> x < 600 \<and> y > 310 \<and> y < 601
                      then temp[i := MAX_TEMP ops] else temp) [0..<DIM * DIM] temp;
          temp = temp[DIM * 100 + 100 := fdiv ops (fadd ops (MAX_TEMP ops) (MIN_TEMP ops)) (fconst ops 2)];
          temp = temp[DIM * 700 + 100 := MIN_TEMP ops];
          temp = temp[DIM * 300 + 300 := MIN_TEMP ops];
          temp = temp[DIM * 200 + 700 := MIN_TEMP ops]
      in fold (\<lambda>y temp. fold (\<lambda>x temp. temp[x + y * DIM := MIN_TEMP ops]) [400..<500] temp)
           [800..<900] temp)"

definition seed_inSrc :: "'a float_ops \<Rightarrow> 'a list \<Rightarrow> 'a list" where
  "seed_inSrc ops temp =
     fold (\<lambda>y temp. fold (\<lambda>x temp. temp[x + y * DIM := MAX_TEMP ops]) [0..<200] temp)
       [800..<DIM] temp"

text \<open>
  The state \<open>main\<close> hands to the animation loop. The three allocations are distinct
  pointers; \<open>out0\<close> is the uninitialised content of \<^verbatim>\<open>dev_outSrc\<close>.
\<close>

definition main_init :: "'a float_ops \<Rightarrow> 'a list \<Rightarrow> 'a list \<Rightarrow> DataBlock \<times> 'a device" where
  "main_init ops temp out0 =
     (let d = \<lparr>dev_inSrc = 1, dev_outSrc = 2, dev_constSrc = 3\<rparr>;
          temp = seed_constSrc ops temp;
          m = [dev_constSrc d \<mapsto> temp];
          temp = seed_inSrc ops temp;
          m = m(dev_inSrc d \<mapsto> temp, dev_outSrc d \<mapsto> out0)
      in (d, m))"

section \<open>The steps as the specification words them\<close>

text \<open>
  SourceClampStep: every cell whose mask value is not 0 takes the mask's value, the
  others keep theirs.
\<close>

definition clamp_cell :: "'a float_ops \<Rightarrow> 'a \<Rightarrow> 'a \<Rightarrow> 'a" where
  "clamp_cell ops c g = (if fne ops c (fconst ops 0) then c else g)"

definition SourceClampStep :: "'a float_ops \<Rightarrow> 'a list \<Rightarrow> 'a list \<Rightarrow> 'a list" where
  "SourceClampStep ops grid cmask = map2 (\<lambda>g c. clamp_cell ops c g) grid cmask"

text \<open>
  DiffusionStep: the four-neighbour stencil on the row-major grid (index \<open>x + y * D\<close>),
  a neighbour outside the grid replaced by the cell's own value.
\<close>

definition stencil :: "'a float_ops \<Rightarrow> nat \<Rightarrow> 'a list \<Rightarrow> nat \<Rightarrow> nat \<Rightarrow> 'a" where
  "stencil ops D inp x y =
     (let c = inp ! (x + y * D);
          n = (if y = 0 then c else inp ! (x + (y - 1) * D));
          s = (if y = D - 1 then c else inp ! (x + (y + 1) * D));
          w = (if x = 0 then c else inp ! (x - 1 + y * D));
          e = (if x = D - 1 then c else inp ! (x + 1 + y * D))
      in fadd ops c (fmul ops (SPEED ops)
           (fsub ops (fadd ops (fadd ops (fadd ops n s) w) e) (fmul ops c (fconst ops 4)))))"

definition DiffusionStep :: "'a float_ops \<Rightarrow> nat \<Rightarrow> 'a list \<Rightarrow> 'a list" where
  "DiffusionStep ops D inp = map (\<lambda>i. stencil ops D inp (i mod D) (i div D)) [0..<D * D]"

text \<open>
  One substep in the specification's words: clamp the current buffer in place, diffuse
  from current into next, exchange the two labels. \<open>repeat n f\<close> runs \<open>f\<close> \<open>n\<close> times.
\<close>

definition SpecSubstep :: "'a float_ops \<Rightarrow> nat \<Rightarrow> DataBlock \<times> 'a device \<Rightarrow> (DataBlock \<times> 'a device) option" where
  "SpecSubstep ops D s =
     (case s of (d, m) \<Rightarrow> do {
        current \<leftarrow> m (dev_inSrc d);
        cmask \<leftarrow> m (dev_constSrc d);
        let clamped = SourceClampStep ops current cmask;
        let m1 = m(dev_inSrc d \<mapsto> clamped);
        let m2 = m1(dev_outSrc d \<mapsto> DiffusionStep ops D clamped);
        Some (d\<lparr>dev_inSrc := dev_outSrc d, dev_outSrc := dev_inSrc d\<rparr>, m2)
      })"

fun repeat :: "nat \<Rightarrow> ('s \<Rightarrow> 's option) \<Rightarrow> 's \<Rightarrow> 's option" where
  "repeat 0 f s = Some s"
| "repeat (Suc n) f s = (case f s of None \<Rightarrow> None | Some s' \<Rightarrow> repeat n f s')"

text \<open>
  A state \<open>anim_gpu\<close> can run on: three distinct allocations of \<open>D * D\<close> scalars each.
\<close>

definition valid_state :: "nat \<Rightarrow> DataBlock \<Rightarrow> 'a device \<Rightarrow> bool" where
  "valid_state D d m \<longleftrightarrow>
     dev_inSrc d \<noteq> dev_outSrc d \<and> dev_inSrc d \<noteq> dev_constSrc d \<and> dev_outSrc d \<noteq> dev_constSrc d \<and>
     map_option length (m (dev_inSrc d)) = Some (D * D) \<and>
     map_option length (m (dev_outSrc d)) = Some (D * D) \<and>
     map_option length (m (dev_constSrc d)) = Some (D * D)"

text \<open>The current grid of a state: the array at \<^verbatim>\<open>d->dev_inSrc\<close>.\<close>

definition current_grid :: "DataBlock \<times> 'a device \<Rightarrow> 'a list option" where
  "current_grid s = (case s of (d, m) \<Rightarrow> m (dev_inSrc d))"

text \<open>
  What the all-zero grid needs of the arithmetic: 0 does not compare unequal to itself,
  and \<open>0 * 4\<close>, \<open>0 + 0\<close>, \<open>0 - 0\<close> and \<open>SPEED * 0\<close> are 0. Exact arithmetic has these
  properties, and so has IEEE 754 arithmetic on the value \<open>+0\<close>.
\<close>

definition zero_at_rest :: "'a float_ops \<Rightarrow> bool" where
  "zero_at_rest ops \<longleftrightarrow>
     \<not> fne ops (fconst ops 0) (fconst ops 0) \<and>
     fmul ops (fconst ops 0) (fconst ops 4) = fconst ops 0 \<and>
     fadd ops (fconst ops 0) (fconst ops 0) = fconst ops 0 \<and>
     fsub ops (fconst ops 0) (fconst ops 0) = fconst ops 0 \<and>
     fmul ops (SPEED ops) (fconst ops 0) = fconst ops 0"

section \<open>Memory accesses and the threads of a launch\<close>

lemma load_nat: "m p = Some buf \<Longrightarrow> k < length buf \<Longrightarrow> load m p (int k) = Some (buf ! k)"
  by (simp add: load_def)

lemma store_nat:
  "m p = Some buf \<Longrightarrow> k < length buf \<Longrightarrow> store m p (int k) v = Some (m(p \<mapsto> buf[k := v]))"
  by (simp add: store_def)

lemma cell_in_rect: "x < W \<Longrightarrow> y < H \<Longrightarrow> x + y * W < W * (H::nat)"
proof -
  assume x: "x < W" and y: "y < H"
  have "x + y * W < W + y * W" using x by simp
  also have "\<dots> = W * Suc y" by simp
  also have "\<dots> \<le> W * H" using y by (metis Suc_leI mult_le_mono2)
  finally show ?thesis .
qed

lemma cell_in_grid: "x < D \<Longrightarrow> y < D \<Longrightarrow> x + y * D < D * (D::nat)"
  by (rule cell_in_rect)

lemma blend_kernel_thread:
  assumes tx: "dim_x (threadIdx t) + dim_x (blockIdx t) * dim_x (blockDim t) = x"
    and ty: "dim_y (threadIdx t) + dim_y (blockIdx t) * dim_y (blockDim t) = y"
    and w: "dim_x (blockDim t) * dim_x (gridDim t) = D"
    and x: "x < D" and y: "y < D"
    and a: "m inSrc = Some a" "length a = D * D"
    and b: "m outSrc = Some b" "length b = D * D"
  shows "blend_kernel ops (int D) t outSrc inSrc m =
           Some (m(outSrc \<mapsto> b[x + y * D := stencil ops D a x y]))"
proof -
  define ic where "ic = x + y * D"
  define it where "it = (if y = 0 then ic else x + (y - 1) * D)"
  define ib where "ib = (if y = D - 1 then ic else x + (y + 1) * D)"
  define il where "il = (if x = 0 then ic else x - 1 + y * D)"
  define ir where "ir = (if x = D - 1 then ic else x + 1 + y * D)"
  have off: "int x + int y * int (dim_x (blockDim t)) * int (dim_x (gridDim t)) = int ic"
    using w by (simp add: ic_def mult.assoc flip: of_nat_mult)
  have c: "ic < D * D" unfolding ic_def using x y by (rule cell_in_grid)
  have top: "(if int y = 0 then int ic - int D + int D else int ic - int D) = int it"
    by (cases y) (simp_all add: it_def ic_def algebra_simps)
  have bot: "(if int y = int D - 1 then int ic + int D - int D else int ic + int D) = int ib"
  proof -
    have "(int y = int D - 1) = (y = D - 1)" using y by auto
    then show ?thesis by (simp add: ib_def ic_def distrib_right)
  qed
  have left: "(if int x = 0 then int ic - 1 + 1 else int ic - 1) = int il"
    by (cases x) (simp_all add: il_def ic_def algebra_simps)
  have right: "(if int x = int D - 1 then int ic + 1 - 1 else int ic + 1) = int ir"
  proof -
    have "(int x = int D - 1) = (x = D - 1)" using x by auto
    then show ?thesis by (simp add: ir_def ic_def)
  qed
  have cb: "ic < length a" "ic < length b" using c a(2) b(2) by simp_all
  have topb: "it < length a"
    using cell_in_grid[OF x, of "y - 1"] y c a(2) by (auto simp: it_def)
  have botb: "ib < length a"
    using cell_in_grid[OF x, of "y + 1"] y c a(2) by (auto simp: ib_def)
  have leftb: "il < length a"
    using c a(2) by (auto simp: il_def ic_def)
  have rightb: "ir < length a"
    using cell_in_grid[of "x + 1" D y] x y c a(2) by (auto simp: ir_def)
  have "blend_kernel ops (int D) t outSrc inSrc m =
          Some (m(outSrc \<mapsto> b[ic := fadd ops (a ! ic) (fmul ops (SPEED ops)
             (fsub ops (fadd ops (fadd ops (fadd ops (a ! it) (a ! ib)) (a ! il)) (a ! ir))
                (fmul ops (a ! ic) (fconst ops 4))))]))"
    unfolding blend_kernel_def Let_def tx ty off top bot left right
    by (simp add: load_nat[of m inSrc a] a(1) b(1) cb topb botb leftb rightb
          store_nat[of m outSrc b])
  then show ?thesis
    by (simp add: stencil_def Let_def ic_def it_def ib_def il_def ir_def)
qed


lemma copy_const_kernel_thread:
  assumes w: "dim_x (blockDim t) * dim_x (gridDim t) = W"
    and c: "m cptr = Some c" "cell_x t + cell_y t * W < length c"
    and g: "m iptr = Some g" "cell_x t + cell_y t * W < length g"
  shows "copy_const_kernel ops t iptr cptr m =
           Some (m(iptr \<mapsto> g[cell_x t + cell_y t * W :=
                   clamp_cell ops (c ! (cell_x t + cell_y t * W)) (g ! (cell_x t + cell_y t * W))]))"
proof -
  define k where "k = cell_x t + cell_y t * W"
  have off: "int (dim_x (threadIdx t) + dim_x (blockIdx t) * dim_x (blockDim t)) +
             int (dim_y (threadIdx t) + dim_y (blockIdx t) * dim_y (blockDim t)) *
             int (dim_x (blockDim t)) * int (dim_x (gridDim t)) = int k"
    using w[symmetric] by (simp add: k_def cell_x_def cell_y_def algebra_simps)
  have kb: "k < length c" "k < length g" using c(2) g(2) by (simp_all add: k_def)
  have "copy_const_kernel ops t iptr cptr m = Some (m(iptr \<mapsto> g[k := clamp_cell ops (c ! k) (g ! k)]))"
    unfolding copy_const_kernel_def Let_def off
    by (simp add: load_nat[of m cptr c] store_nat[of m iptr g] c(1) g(1) kb clamp_cell_def
          map_upd_triv)
  then show ?thesis by (simp add: k_def)
qed

lemma threads_of_iff:
  "t \<in> set (threads_of blocks threads) \<longleftrightarrow>
     (\<exists>by < dim_y blocks. \<exists>bx < dim_x blocks. \<exists>ty < dim_y threads. \<exists>tx < dim_x threads.
        t = \<lparr>threadIdx = \<lparr>dim_x = tx, dim_y = ty\<rparr>, blockIdx = \<lparr>dim_x = bx, dim_y = by\<rparr>,
             blockDim = threads, gridDim = blocks\<rparr>)"
  by (auto simp: threads_of_def image_iff)

lemma threads_of_coords:
  assumes "t \<in> set (threads_of blocks threads)"
  shows "cell_x t < dim_x threads * dim_x blocks" "cell_y t < dim_y threads * dim_y blocks"
    "blockDim t = threads" "gridDim t = blocks"
  using assms by (auto simp: threads_of_iff cell_x_def cell_y_def intro: cell_in_rect)

lemma threads_of_cover:
  assumes x: "x < dim_x threads * dim_x blocks" and y: "y < dim_y threads * dim_y blocks"
  shows "\<exists>t \<in> set (threads_of blocks threads). cell_x t = x \<and> cell_y t = y"
proof -
  let ?t = "\<lparr>threadIdx = \<lparr>dim_x = x mod dim_x threads, dim_y = y mod dim_y threads\<rparr>,
             blockIdx = \<lparr>dim_x = x div dim_x threads, dim_y = y div dim_y threads\<rparr>,
             blockDim = threads, gridDim = blocks\<rparr>"
  have px: "0 < dim_x threads" and py: "0 < dim_y threads"
    using x y by (auto intro: Nat.gr0I)
  have "x div dim_x threads < dim_x blocks" "y div dim_y threads < dim_y blocks"
    using x y by (simp_all add: less_mult_imp_div_less mult.commute)
  then have "?t \<in> set (threads_of blocks threads)"
    using px py by (auto simp: threads_of_iff)
  moreover have "cell_x ?t = x" "cell_y ?t = y"
    by (simp_all add: cell_x_def cell_y_def)
  ultimately show ?thesis by blast
qed


lemma length_fold_update: "length (fold (\<lambda>t b. b[f t b := v t b]) ts b) = length b"
  by (induction ts arbitrary: b) simp_all

lemma fold_write_nth:
  assumes "i < length b" "\<exists>t \<in> set ts. f t = i" "\<forall>t \<in> set ts. f t = i \<longrightarrow> v t = c"
  shows "fold (\<lambda>t b. b[f t := v t]) ts b ! i = c"
  using assms
proof (induction ts rule: rev_induct)
  case Nil
  then show ?case by simp
next
  case (snoc t ts)
  have len: "i < length (fold (\<lambda>t b. b[f t := v t]) ts b)"
    using snoc.prems(1) by (simp add: length_fold_update[where f = "\<lambda>t b. f t" and v = "\<lambda>t b. v t"])
  show ?case
  proof (cases "f t = i")
    case True
    then show ?thesis using snoc.prems(3) len by simp
  next
    case False
    then have "\<exists>t \<in> set ts. f t = i" using snoc.prems(2) by auto
    then have "fold (\<lambda>t b. b[f t := v t]) ts b ! i = c"
      using snoc.IH snoc.prems(1,3) by simp
    then show ?thesis using False by simp
  qed
qed

lemma fold_clamp_nth:
  assumes "i < length g"
  shows "fold (\<lambda>t g. g[f t := clamp_cell ops (c ! f t) (g ! f t)]) ts g ! i =
           (if i \<in> f ` set ts then clamp_cell ops (c ! i) (g ! i) else g ! i)"
  using assms
proof (induction ts rule: rev_induct)
  case Nil
  then show ?case by simp
next
  case (snoc t ts)
  let ?g = "fold (\<lambda>t g. g[f t := clamp_cell ops (c ! f t) (g ! f t)]) ts g"
  have len: "i < length ?g"
    using snoc.prems
    by (simp add: length_fold_update[where f = "\<lambda>t b. f t"
          and v = "\<lambda>t g. clamp_cell ops (c ! f t) (g ! f t)"])
  have ih: "?g ! i = (if i \<in> f ` set ts then clamp_cell ops (c ! i) (g ! i) else g ! i)"
    using snoc.IH snoc.prems by simp
  show ?case
  proof (cases "f t = i")
    case True
    then show ?thesis using len ih by (simp add: clamp_cell_def)
  next
    case False
    then show ?thesis using ih by auto
  qed
qed

lemma blend_run:
  assumes ne: "inSrc \<noteq> outSrc"
    and a: "m inSrc = Some a" "length a = D * D"
    and b: "m outSrc = Some b" "length b = D * D"
    and ts: "\<forall>t \<in> set ts. cell_x t < D \<and> cell_y t < D \<and> dim_x (blockDim t) * dim_x (gridDim t) = D"
  shows "run_threads (\<lambda>t. blend_kernel ops (int D) t outSrc inSrc) ts m =
           Some (m(outSrc \<mapsto>
             fold (\<lambda>t b. b[cell_x t + cell_y t * D := stencil ops D a (cell_x t) (cell_y t)]) ts b))"
  using a(1) b ts
proof (induction ts arbitrary: m b)
  case Nil
  then show ?case by (simp add: map_upd_triv)
next
  case (Cons t ts)
  let ?b = "b[cell_x t + cell_y t * D := stencil ops D a (cell_x t) (cell_y t)]"
  let ?m = "m(outSrc \<mapsto> ?b)"
  have t: "cell_x t < D" "cell_y t < D" "dim_x (blockDim t) * dim_x (gridDim t) = D"
    using Cons.prems(4) by simp_all
  have step: "blend_kernel ops (int D) t outSrc inSrc m = Some ?m"
    using blend_kernel_thread[OF _ _ t(3) t(1,2) Cons.prems(1) a(2) Cons.prems(2,3), of ops]
    by (simp add: cell_x_def cell_y_def)
  have "run_threads (\<lambda>t. blend_kernel ops (int D) t outSrc inSrc) ts ?m =
          Some ((m(outSrc \<mapsto> ?b))(outSrc \<mapsto>
            fold (\<lambda>t b. b[cell_x t + cell_y t * D := stencil ops D a (cell_x t) (cell_y t)]) ts ?b))"
    using Cons.prems ne by (intro Cons.IH) simp_all
  moreover have "(m(outSrc \<mapsto> ?b))(outSrc \<mapsto>
            fold (\<lambda>t b. b[cell_x t + cell_y t * D := stencil ops D a (cell_x t) (cell_y t)]) ts ?b)
        = m(outSrc \<mapsto>
            fold (\<lambda>t b. b[cell_x t + cell_y t * D := stencil ops D a (cell_x t) (cell_y t)]) (t # ts) b)"
    by simp
  ultimately show ?case using step by (simp del: fun_upd_apply fun_upd_upd fold_simps)
qed

lemma copy_const_run:
  assumes ne: "iptr \<noteq> cptr"
    and c: "m cptr = Some c"
    and g: "m iptr = Some g"
    and ts: "\<forall>t \<in> set ts. cell_x t + cell_y t * W < length c \<and> cell_x t + cell_y t * W < length g
               \<and> dim_x (blockDim t) * dim_x (gridDim t) = W"
  shows "run_threads (\<lambda>t. copy_const_kernel ops t iptr cptr) ts m =
           Some (m(iptr \<mapsto>
             fold (\<lambda>t g. g[cell_x t + cell_y t * W :=
                     clamp_cell ops (c ! (cell_x t + cell_y t * W)) (g ! (cell_x t + cell_y t * W))]) ts g))"
  using c g ts
proof (induction ts arbitrary: m g)
  case Nil
  then show ?case by (simp add: map_upd_triv)
next
  case (Cons t ts)
  let ?k = "cell_x t + cell_y t * W"
  let ?g = "g[?k := clamp_cell ops (c ! ?k) (g ! ?k)]"
  let ?m = "m(iptr \<mapsto> ?g)"
  have t: "?k < length c" "?k < length g" "dim_x (blockDim t) * dim_x (gridDim t) = W"
    using Cons.prems(3) by simp_all
  have step: "copy_const_kernel ops t iptr cptr m = Some ?m"
    by (rule copy_const_kernel_thread[OF t(3) Cons.prems(1) t(1) Cons.prems(2) t(2)])
  have "run_threads (\<lambda>t. copy_const_kernel ops t iptr cptr) ts ?m =
          Some ((m(iptr \<mapsto> ?g))(iptr \<mapsto>
             fold (\<lambda>t g. g[cell_x t + cell_y t * W :=
                     clamp_cell ops (c ! (cell_x t + cell_y t * W)) (g ! (cell_x t + cell_y t * W))]) ts ?g))"
    using Cons.prems ne by (intro Cons.IH) simp_all
  moreover have "(m(iptr \<mapsto> ?g))(iptr \<mapsto>
             fold (\<lambda>t g. g[cell_x t + cell_y t * W :=
                     clamp_cell ops (c ! (cell_x t + cell_y t * W)) (g ! (cell_x t + cell_y t * W))]) ts ?g)
        = m(iptr \<mapsto>
             fold (\<lambda>t g. g[cell_x t + cell_y t * W :=
                     clamp_cell ops (c ! (cell_x t + cell_y t * W)) (g ! (cell_x t + cell_y t * W))]) (t # ts) g)"
    by simp
  ultimately show ?case using step by (simp del: fun_upd_apply fun_upd_upd fold_simps)
qed


section \<open>A launch computes the step on the whole grid\<close>

lemma cell_of_index:
  assumes "x < W" "x + y * W = i"
  shows "x = i mod W" "y = i div (W::nat)"
  using assms by auto

lemma blend_any_order:
  assumes geo: "dim_x threads * dim_x blocks = D" "dim_y threads * dim_y blocks = D"
    and ne: "inSrc \<noteq> outSrc"
    and a: "m inSrc = Some a" "length a = D * D"
    and b: "m outSrc = Some b" "length b = D * D"
    and sched: "set ts = set (threads_of blocks threads)"
  shows "run_threads (\<lambda>t. blend_kernel ops (int D) t outSrc inSrc) ts m =
           Some (m(outSrc \<mapsto> DiffusionStep ops D a))"
proof -
  let ?f = "\<lambda>t. cell_x t + cell_y t * D"
  let ?v = "\<lambda>t. stencil ops D a (cell_x t) (cell_y t)"
  let ?r = "fold (\<lambda>t b. b[?f t := ?v t]) ts b"
  have ts: "\<forall>t \<in> set ts. cell_x t < D \<and> cell_y t < D \<and> dim_x (blockDim t) * dim_x (gridDim t) = D"
    using geo sched by (auto dest: threads_of_coords)
  have run: "run_threads (\<lambda>t. blend_kernel ops (int D) t outSrc inSrc) ts m =
               Some (m(outSrc \<mapsto> ?r))"
    by (rule blend_run[OF ne a b ts])
  have len: "length ?r = D * D"
    using b(2) by (simp add: length_fold_update[where f = "\<lambda>t b. ?f t" and v = "\<lambda>t b. ?v t"])
  have "?r = DiffusionStep ops D a"
  proof (rule nth_equalityI)
    show "length ?r = length (DiffusionStep ops D a)"
      using len by (simp add: DiffusionStep_def)
  next
    fix i assume "i < length ?r"
    then have i: "i < D * D" using len by simp
    then have D: "0 < D" by (auto intro: Nat.gr0I)
    have xy: "i mod D < D" "i div D < D"
      using i D by (simp_all add: less_mult_imp_div_less)
    obtain t where t: "t \<in> set ts" "cell_x t = i mod D" "cell_y t = i div D"
      using threads_of_cover[of "i mod D" threads blocks "i div D"] xy geo sched by auto
    have ex: "\<exists>t \<in> set ts. ?f t = i" using t by (intro bexI[of _ t]) simp_all
    have all: "\<forall>t \<in> set ts. ?f t = i \<longrightarrow> ?v t = stencil ops D a (i mod D) (i div D)"
    proof (intro ballI impI)
      fix t' assume t': "t' \<in> set ts" "?f t' = i"
      have "cell_x t' < D" using ts t'(1) by simp
      then show "?v t' = stencil ops D a (i mod D) (i div D)"
        using cell_of_index[OF _ t'(2)] by simp
    qed
    have "?r ! i = stencil ops D a (i mod D) (i div D)"
      using i b(2) by (intro fold_write_nth[OF _ ex all]) simp
    then show "?r ! i = DiffusionStep ops D a ! i"
      using i by (simp add: DiffusionStep_def)
  qed
  then show ?thesis using run by simp
qed

lemma blend_launch:
  assumes geo: "dim_x threads * dim_x blocks = D" "dim_y threads * dim_y blocks = D"
    and ne: "inSrc \<noteq> outSrc"
    and a: "m inSrc = Some a" "length a = D * D"
    and b: "m outSrc = Some b" "length b = D * D"
  shows "launch blocks threads (\<lambda>t. blend_kernel ops (int D) t outSrc inSrc) m =
           Some (m(outSrc \<mapsto> DiffusionStep ops D a))"
  unfolding launch_def using assms refl by (rule blend_any_order)

lemma copy_const_any_order:
  assumes geo: "dim_x threads * dim_x blocks = W" "dim_y threads * dim_y blocks = H"
    and ne: "iptr \<noteq> cptr"
    and c: "m cptr = Some c" "length c = W * H"
    and g: "m iptr = Some g" "length g = W * H"
    and sched: "set ts = set (threads_of blocks threads)"
  shows "run_threads (\<lambda>t. copy_const_kernel ops t iptr cptr) ts m =
           Some (m(iptr \<mapsto> SourceClampStep ops g c))"
proof -
  let ?f = "\<lambda>t. cell_x t + cell_y t * W"
  let ?r = "fold (\<lambda>t g. g[?f t := clamp_cell ops (c ! ?f t) (g ! ?f t)]) ts g"
  have ts: "\<forall>t \<in> set ts. ?f t < length c \<and> ?f t < length g
              \<and> dim_x (blockDim t) * dim_x (gridDim t) = W"
    using geo c(2) g(2) sched by (auto dest: threads_of_coords intro: cell_in_rect)
  have run: "run_threads (\<lambda>t. copy_const_kernel ops t iptr cptr) ts m =
               Some (m(iptr \<mapsto> ?r))"
    by (rule copy_const_run[OF ne c(1) g(1) ts])
  have len: "length ?r = W * H"
    using g(2)
    by (simp add: length_fold_update[where f = "\<lambda>t b. ?f t"
          and v = "\<lambda>t g. clamp_cell ops (c ! ?f t) (g ! ?f t)"])
  have "?r = SourceClampStep ops g c"
  proof (rule nth_equalityI)
    show "length ?r = length (SourceClampStep ops g c)"
      using len c(2) g(2) by (simp add: SourceClampStep_def)
  next
    fix i assume "i < length ?r"
    then have i: "i < W * H" using len by simp
    then have W: "0 < W" by (auto intro: Nat.gr0I)
    have xy: "i mod W < W" "i div W < H"
      using i W by (simp_all add: less_mult_imp_div_less mult.commute)
    obtain t where t: "t \<in> set ts" "cell_x t = i mod W" "cell_y t = i div W"
      using threads_of_cover[of "i mod W" threads blocks "i div W"] xy geo sched by auto
    have "?f t = i" using t by simp
    then have "i \<in> ?f ` set ts" using t(1) by blast
    then have "?r ! i = clamp_cell ops (c ! i) (g ! i)"
      using i g(2) by (simp add: fold_clamp_nth)
    then show "?r ! i = SourceClampStep ops g c ! i"
      using i c(2) g(2) by (simp add: SourceClampStep_def)
  qed
  then show ?thesis using run by simp
qed

lemma copy_const_launch:
  assumes geo: "dim_x threads * dim_x blocks = W" "dim_y threads * dim_y blocks = H"
    and ne: "iptr \<noteq> cptr"
    and c: "m cptr = Some c" "length c = W * H"
    and g: "m iptr = Some g" "length g = W * H"
  shows "launch blocks threads (\<lambda>t. copy_const_kernel ops t iptr cptr) m =
           Some (m(iptr \<mapsto> SourceClampStep ops g c))"
  unfolding launch_def using assms refl by (rule copy_const_any_order)

text \<open>
  The order in which the threads of a launch run does not matter: run in any order
  (and any number of times each), the threads of either kernel leave the memory the
  launch leaves.
\<close>

lemma launch_order_irrelevant:
  assumes "dim_x threads * dim_x blocks = D" "dim_y threads * dim_y blocks = D"
    and "valid_state D d m"
    and "set ts = set (threads_of blocks threads)"
  shows "run_threads (\<lambda>t. blend_kernel ops (int D) t (dev_outSrc d) (dev_inSrc d)) ts m
           = launch blocks threads (\<lambda>t. blend_kernel ops (int D) t (dev_outSrc d) (dev_inSrc d)) m"
    and "run_threads (\<lambda>t. copy_const_kernel ops t (dev_inSrc d) (dev_constSrc d)) ts m
           = launch blocks threads (\<lambda>t. copy_const_kernel ops t (dev_inSrc d) (dev_constSrc d)) m"
proof -
  obtain cur nxt cmask where mem:
    "m (dev_inSrc d) = Some cur" "length cur = D * D"
    "m (dev_outSrc d) = Some nxt" "length nxt = D * D"
    "m (dev_constSrc d) = Some cmask" "length cmask = D * D"
    and ne: "dev_inSrc d \<noteq> dev_outSrc d" "dev_inSrc d \<noteq> dev_constSrc d"
    using assms(3) by (auto simp: valid_state_def)
  show "run_threads (\<lambda>t. blend_kernel ops (int D) t (dev_outSrc d) (dev_inSrc d)) ts m
           = launch blocks threads (\<lambda>t. blend_kernel ops (int D) t (dev_outSrc d) (dev_inSrc d)) m"
    using blend_any_order[OF assms(1,2) ne(1) mem(1-4) assms(4), of ops]
      blend_launch[OF assms(1,2) ne(1) mem(1-4), of ops] by simp
  show "run_threads (\<lambda>t. copy_const_kernel ops t (dev_inSrc d) (dev_constSrc d)) ts m
           = launch blocks threads (\<lambda>t. copy_const_kernel ops t (dev_inSrc d) (dev_constSrc d)) m"
    using copy_const_any_order[OF assms(1,2) ne(2) mem(5,6) mem(1,2) assms(4), of ops]
      copy_const_launch[OF assms(1,2) ne(2) mem(5,6) mem(1,2), of ops] by simp
qed

lemma length_SourceClampStep [simp]:
  "length (SourceClampStep ops g c) = min (length g) (length c)"
  by (simp add: SourceClampStep_def)

lemma nth_SourceClampStep:
  "i < length g \<Longrightarrow> i < length c \<Longrightarrow> SourceClampStep ops g c ! i = clamp_cell ops (c ! i) (g ! i)"
  by (simp add: SourceClampStep_def)

lemma SourceClampStep_idem:
  "SourceClampStep ops (SourceClampStep ops g c) c = SourceClampStep ops g c"
  by (rule nth_equalityI) (simp_all add: nth_SourceClampStep clamp_cell_def)

lemma length_DiffusionStep [simp]: "length (DiffusionStep ops D a) = D * D"
  by (simp add: DiffusionStep_def)

lemma nth_DiffusionStep:
  assumes "x < D" "y < D"
  shows "DiffusionStep ops D a ! (x + y * D) = stencil ops D a x y"
  using assms cell_in_grid[OF assms] by (simp add: DiffusionStep_def)

lemma anim_geometry:
  "dim_x anim_threads * dim_x (anim_blocks DIM) = DIM"
  "dim_y anim_threads * dim_y (anim_blocks DIM) = DIM"
  by (simp_all add: anim_threads_def anim_blocks_def DIM_def)

section \<open>The clamp\<close>

text \<open>
  C4. After the launch of \<open>copy_const_kernel\<close> over the grid, every cell whose mask value
  compares unequal to 0 holds the mask's value, whatever it held before, and every
  other cell holds its prior value.
\<close>

theorem copy_const_kernel_clamps:
  assumes "iptr \<noteq> cptr"
    and "m cptr = Some cmask" "length cmask = DIM * DIM"
    and "m iptr = Some grid" "length grid = DIM * DIM"
  shows "\<exists>grid'. launch (anim_blocks DIM) anim_threads (\<lambda>t. copy_const_kernel ops t iptr cptr) m
                    = Some (m(iptr \<mapsto> grid'))
           \<and> length grid' = DIM * DIM
           \<and> (\<forall>x < DIM. \<forall>y < DIM.
                 grid' ! (x + y * DIM) =
                   (if fne ops (cmask ! (x + y * DIM)) (fconst ops 0)
                    then cmask ! (x + y * DIM) else grid ! (x + y * DIM)))"
proof (intro exI conjI allI impI)
  show "launch (anim_blocks DIM) anim_threads (\<lambda>t. copy_const_kernel ops t iptr cptr) m
          = Some (m(iptr \<mapsto> SourceClampStep ops grid cmask))"
    using anim_geometry assms by (rule copy_const_launch)
  show "length (SourceClampStep ops grid cmask) = DIM * DIM"
    using assms by simp
next
  fix x y assume "x < DIM" "y < DIM"
  then have "x + y * DIM < DIM * DIM" by (rule cell_in_grid)
  then show "SourceClampStep ops grid cmask ! (x + y * DIM) =
          (if fne ops (cmask ! (x + y * DIM)) (fconst ops 0)
           then cmask ! (x + y * DIM) else grid ! (x + y * DIM))"
    using assms by (simp add: nth_SourceClampStep clamp_cell_def)
qed

theorem copy_const_kernel_clamps_witness:
  "\<exists>grid'. launch (anim_blocks DIM) anim_threads (\<lambda>t. copy_const_kernel exact_arith t 1 3)
              [1 \<mapsto> replicate (DIM * DIM) 2, 3 \<mapsto> (replicate (DIM * DIM) 0)[5 := 7]]
            = Some ([1 \<mapsto> replicate (DIM * DIM) 2, 3 \<mapsto> (replicate (DIM * DIM) 0)[5 := 7]](1 \<mapsto> grid'))
      \<and> grid' ! 5 = 7 \<and> grid' ! 6 = 2"
proof -
  let ?m = "[1 \<mapsto> replicate (DIM * DIM) (2::real), 3 \<mapsto> (replicate (DIM * DIM) 0)[5 := 7]]"
  have n: "5 < DIM" "6 < DIM" "0 < DIM" "5 < DIM * DIM" "6 < DIM * DIM" by (simp_all add: DIM_def)
  obtain grid' where g: "launch (anim_blocks DIM) anim_threads (\<lambda>t. copy_const_kernel exact_arith t 1 3) ?m
                    = Some (?m(1 \<mapsto> grid'))"
    "\<forall>x < DIM. \<forall>y < DIM.
       grid' ! (x + y * DIM) =
         (if fne exact_arith ((replicate (DIM * DIM) 0)[5 := 7] ! (x + y * DIM)) (fconst exact_arith 0)
          then (replicate (DIM * DIM) 0)[5 := 7] ! (x + y * DIM)
          else replicate (DIM * DIM) 2 ! (x + y * DIM))"
    using copy_const_kernel_clamps[of 1 3 ?m "(replicate (DIM * DIM) 0)[5 := 7]"
        "replicate (DIM * DIM) 2" exact_arith]
    by auto
  have "grid' ! 5 = 7" "grid' ! 6 = 2"
    using g(2)[rule_format, of 5 0] g(2)[rule_format, of 6 0] n
    by (simp_all add: exact_arith_def)
  then show ?thesis using g(1) by auto
qed

text \<open>
  C7. Launching \<open>copy_const_kernel\<close> a second time on the memory the first launch left
  changes nothing.
\<close>

theorem copy_const_kernel_idempotent:
  assumes "iptr \<noteq> cptr"
    and "m cptr = Some cmask" "length cmask = DIM * DIM"
    and "m iptr = Some grid" "length grid = DIM * DIM"
  shows "\<exists>m1. launch (anim_blocks DIM) anim_threads (\<lambda>t. copy_const_kernel ops t iptr cptr) m = Some m1
           \<and> launch (anim_blocks DIM) anim_threads (\<lambda>t. copy_const_kernel ops t iptr cptr) m1 = Some m1"
proof -
  let ?g = "SourceClampStep ops grid cmask"
  let ?m1 = "m(iptr \<mapsto> ?g)"
  have one: "launch (anim_blocks DIM) anim_threads (\<lambda>t. copy_const_kernel ops t iptr cptr) m = Some ?m1"
    using anim_geometry assms by (rule copy_const_launch)
  have "launch (anim_blocks DIM) anim_threads (\<lambda>t. copy_const_kernel ops t iptr cptr) ?m1
          = Some (?m1(iptr \<mapsto> SourceClampStep ops ?g cmask))"
    using anim_geometry assms by (intro copy_const_launch) simp_all
  then have "launch (anim_blocks DIM) anim_threads (\<lambda>t. copy_const_kernel ops t iptr cptr) ?m1 = Some ?m1"
    by (simp add: SourceClampStep_idem)
  with one show ?thesis by blast
qed

theorem copy_const_kernel_idempotent_witness:
  "\<exists>m1. launch (anim_blocks DIM) anim_threads (\<lambda>t. copy_const_kernel exact_arith t 1 3)
              [1 \<mapsto> replicate (DIM * DIM) 2, 3 \<mapsto> (replicate (DIM * DIM) 0)[5 := 7]] = Some m1
      \<and> launch (anim_blocks DIM) anim_threads (\<lambda>t. copy_const_kernel exact_arith t 1 3) m1 = Some m1"
  using copy_const_kernel_idempotent[of 1 3
      "[1 \<mapsto> replicate (DIM * DIM) 2, 3 \<mapsto> (replicate (DIM * DIM) 0)[5 := 7]]"
      "(replicate (DIM * DIM) 0)[5 := 7]" "replicate (DIM * DIM) 2" exact_arith]
  by simp

section \<open>The stencil and its indices\<close>

lemma blend_kernel_indices:
  "blend_kernel ops D t outSrc inSrc m =
     (let ix = blend_indices D t
      in do {
        c \<leftarrow> load m inSrc (i_offset ix);
        tp \<leftarrow> load m inSrc (i_top ix);
        bt \<leftarrow> load m inSrc (i_bottom ix);
        lf \<leftarrow> load m inSrc (i_left ix);
        rt \<leftarrow> load m inSrc (i_right ix);
        c4 \<leftarrow> load m inSrc (i_offset ix);
        store m outSrc (i_offset ix)
          (fadd ops c (fmul ops (SPEED ops)
             (fsub ops (fadd ops (fadd ops (fadd ops tp bt) lf) rt) (fmul ops c4 (fconst ops 4)))))
      })"
  by (simp add: blend_kernel_def blend_indices_def Let_def)

lemma blend_indices_cell:
  assumes w: "dim_x (blockDim t) * dim_x (gridDim t) = D"
    and x: "cell_x t < D" and y: "cell_y t < D"
  shows "blend_indices (int D) t =
           \<lparr>i_offset = int (cell_x t + cell_y t * D),
            i_left = int (if cell_x t = 0 then cell_x t + cell_y t * D else cell_x t - 1 + cell_y t * D),
            i_right = int (if cell_x t = D - 1 then cell_x t + cell_y t * D else cell_x t + 1 + cell_y t * D),
            i_top = int (if cell_y t = 0 then cell_x t + cell_y t * D else cell_x t + (cell_y t - 1) * D),
            i_bottom = int (if cell_y t = D - 1 then cell_x t + cell_y t * D else cell_x t + (cell_y t + 1) * D)\<rparr>"
proof -
  define cx where "cx = cell_x t"
  define cy where "cy = cell_y t"
  define ic where "ic = cx + cy * D"
  have tx: "dim_x (threadIdx t) + dim_x (blockIdx t) * dim_x (blockDim t) = cx"
    and ty: "dim_y (threadIdx t) + dim_y (blockIdx t) * dim_y (blockDim t) = cy"
    by (simp_all add: cx_def cy_def cell_x_def cell_y_def)
  have off: "int cx + int cy * int (dim_x (blockDim t)) * int (dim_x (gridDim t)) = int ic"
    using w[symmetric] by (simp add: ic_def algebra_simps)
  have top: "(if int cy = 0 then int ic - int D + int D else int ic - int D)
               = int (if cy = 0 then ic else cx + (cy - 1) * D)"
    by (cases cy) (simp_all add: ic_def algebra_simps)
  have bot: "(if int cy = int D - 1 then int ic + int D - int D else int ic + int D)
               = int (if cy = D - 1 then ic else cx + (cy + 1) * D)"
  proof -
    have "(int cy = int D - 1) = (cy = D - 1)" using y by (auto simp: cy_def)
    then show ?thesis by (simp add: ic_def distrib_right)
  qed
  have left: "(if int cx = 0 then int ic - 1 + 1 else int ic - 1)
               = int (if cx = 0 then ic else cx - 1 + cy * D)"
    by (cases cx) (simp_all add: ic_def algebra_simps)
  have right: "(if int cx = int D - 1 then int ic + 1 - 1 else int ic + 1)
               = int (if cx = D - 1 then ic else cx + 1 + cy * D)"
  proof -
    have "(int cx = int D - 1) = (cx = D - 1)" using x by (auto simp: cx_def)
    then show ?thesis by (simp add: ic_def)
  qed
  have "blend_indices (int D) t =
          \<lparr>i_offset = int ic,
           i_left = int (if cx = 0 then ic else cx - 1 + cy * D),
           i_right = int (if cx = D - 1 then ic else cx + 1 + cy * D),
           i_top = int (if cy = 0 then ic else cx + (cy - 1) * D),
           i_bottom = int (if cy = D - 1 then ic else cx + (cy + 1) * D)\<rparr>"
    unfolding blend_indices_def Let_def tx ty off top bot left right by simp
  then show ?thesis by (simp add: ic_def cx_def cy_def)
qed

lemma neighbours_in_grid:
  assumes x: "x < D" and y: "y < (D::nat)"
  shows "x + y * D < D * D"
    "(if x = 0 then x + y * D else x - 1 + y * D) < D * D"
    "(if x = D - 1 then x + y * D else x + 1 + y * D) < D * D"
    "(if y = 0 then x + y * D else x + (y - 1) * D) < D * D"
    "(if y = D - 1 then x + y * D else x + (y + 1) * D) < D * D"
proof -
  show c: "x + y * D < D * D" using x y by (rule cell_in_grid)
  show "(if x = 0 then x + y * D else x - 1 + y * D) < D * D" using c by auto
  show "(if x = D - 1 then x + y * D else x + 1 + y * D) < D * D"
    using cell_in_grid[of "x + 1" D y] x y c by auto
  show "(if y = 0 then x + y * D else x + (y - 1) * D) < D * D"
    using cell_in_grid[OF x, of "y - 1"] y c by auto
  show "(if y = D - 1 then x + y * D else x + (y + 1) * D) < D * D"
    using cell_in_grid[OF x, of "y + 1"] y c by auto
qed

lemma anim_threads_cells:
  assumes "t \<in> set (threads_of (anim_blocks DIM) anim_threads)"
  shows "cell_x t < DIM" "cell_y t < DIM" "dim_x (blockDim t) * dim_x (gridDim t) = DIM"
  using threads_of_coords[OF assms] anim_geometry by simp_all

text \<open>
  C1. For every interior cell, the launch of \<open>blend_kernel\<close> over the grid of the
  reference configuration (\<open>DIM = 1024\<close>, \<open>SPEED = 0.25\<close>) writes
  \<open>in[x,y] + SPEED * (in[x,y-1] + in[x,y+1] + in[x-1,y] + in[x+1,y] - in[x,y] * 4)\<close>,
  the operations taken in this order.
\<close>

theorem blend_kernel_interior:
  assumes "inSrc \<noteq> outSrc"
    and "m inSrc = Some inp" "length inp = DIM * DIM"
    and "m outSrc = Some out0" "length out0 = DIM * DIM"
    and "0 < x" "x < DIM - 1" "0 < y" "y < DIM - 1"
  shows "\<exists>out. launch (anim_blocks DIM) anim_threads
                  (\<lambda>t. blend_kernel ops (int DIM) t outSrc inSrc) m = Some (m(outSrc \<mapsto> out))
           \<and> out ! (x + y * DIM) =
               fadd ops (inp ! (x + y * DIM))
                 (fmul ops (SPEED ops)
                    (fsub ops
                       (fadd ops
                          (fadd ops
                             (fadd ops (inp ! (x + (y - 1) * DIM)) (inp ! (x + (y + 1) * DIM)))
                             (inp ! (x - 1 + y * DIM)))
                          (inp ! (x + 1 + y * DIM)))
                       (fmul ops (inp ! (x + y * DIM)) (fconst ops 4))))
           \<and> SPEED ops = fconst ops 0.25 \<and> DIM = 1024"
proof (intro exI conjI)
  show "launch (anim_blocks DIM) anim_threads (\<lambda>t. blend_kernel ops (int DIM) t outSrc inSrc) m
          = Some (m(outSrc \<mapsto> DiffusionStep ops DIM inp))"
    using anim_geometry assms(1-5) by (rule blend_launch)
  have "x < DIM" "y < DIM" using assms by simp_all
  then have "DiffusionStep ops DIM inp ! (x + y * DIM) = stencil ops DIM inp x y"
    by (rule nth_DiffusionStep)
  then show "DiffusionStep ops DIM inp ! (x + y * DIM) =
               fadd ops (inp ! (x + y * DIM))
                 (fmul ops (SPEED ops)
                    (fsub ops
                       (fadd ops
                          (fadd ops
                             (fadd ops (inp ! (x + (y - 1) * DIM)) (inp ! (x + (y + 1) * DIM)))
                             (inp ! (x - 1 + y * DIM)))
                          (inp ! (x + 1 + y * DIM)))
                       (fmul ops (inp ! (x + y * DIM)) (fconst ops 4))))"
    using assms(6-9) by (simp add: stencil_def Let_def)
  show "SPEED ops = fconst ops 0.25" by (simp add: SPEED_def)
  show "DIM = 1024" by (simp add: DIM_def)
qed

theorem blend_kernel_interior_witness:
  "\<exists>out. launch (anim_blocks DIM) anim_threads (\<lambda>t. blend_kernel exact_arith (int DIM) t 2 1)
            [1 \<mapsto> (replicate (DIM * DIM) 0)[5 + 4 * DIM := 8], 2 \<mapsto> replicate (DIM * DIM) 3]
          = Some ([1 \<mapsto> (replicate (DIM * DIM) 0)[5 + 4 * DIM := 8], 2 \<mapsto> replicate (DIM * DIM) 3]
                    (2 \<mapsto> out))
      \<and> out ! (5 + 5 * DIM) = 2"
proof -
  let ?inp = "(replicate (DIM * DIM) (0::real))[5 + 4 * DIM := 8]"
  let ?m = "[1 \<mapsto> ?inp, 2 \<mapsto> replicate (DIM * DIM) 3]"
  have n: "0 < (5::nat)" "5 < DIM - 1" by (simp_all add: DIM_def)
  have i: "5 + 4 * DIM < DIM * DIM" "5 + 6 * DIM < DIM * DIM" "5 + 5 * DIM < DIM * DIM"
    "4 + 5 * DIM < DIM * DIM" "6 + 5 * DIM < DIM * DIM"
    by (simp_all add: DIM_def)
  have v: "?inp ! (5 + 5 * DIM) = 0" "?inp ! (5 + 4 * DIM) = 8" "?inp ! (5 + 6 * DIM) = 0"
    "?inp ! (4 + 5 * DIM) = 0" "?inp ! (6 + 5 * DIM) = 0"
    using i by (simp_all add: DIM_def)
  have "\<exists>out. launch (anim_blocks DIM) anim_threads (\<lambda>t. blend_kernel exact_arith (int DIM) t 2 1) ?m
               = Some (?m(2 \<mapsto> out))
           \<and> out ! (5 + 5 * DIM) = 2 \<and> DIM = 1024"
    using blend_kernel_interior[of 1 2 ?m ?inp "replicate (DIM * DIM) 3" 5 5 exact_arith] n v
    by (simp add: exact_arith_def SPEED_def)
  then show ?thesis by blast
qed

text \<open>
  C2. For every cell of the grid the launch of \<open>blend_kernel\<close> writes the stencil value
  in which a neighbour outside the grid is the cell's own input value: the west term
  for \<open>x = 0\<close>, the east term for \<open>x = DIM - 1\<close>, the north term for \<open>y = 0\<close> and the
  south term for \<open>y = DIM - 1\<close>. No value of another row, column or edge stands in.
\<close>

theorem blend_kernel_boundary:
  assumes "inSrc \<noteq> outSrc"
    and "m inSrc = Some inp" "length inp = DIM * DIM"
    and "m outSrc = Some out0" "length out0 = DIM * DIM"
    and "x < DIM" "y < DIM"
  shows "\<exists>out. launch (anim_blocks DIM) anim_threads
                  (\<lambda>t. blend_kernel ops (int DIM) t outSrc inSrc) m = Some (m(outSrc \<mapsto> out))
           \<and> (let c = inp ! (x + y * DIM);
                   north = (if y = 0 then c else inp ! (x + (y - 1) * DIM));
                   south = (if y = DIM - 1 then c else inp ! (x + (y + 1) * DIM));
                   west = (if x = 0 then c else inp ! (x - 1 + y * DIM));
                   east = (if x = DIM - 1 then c else inp ! (x + 1 + y * DIM))
               in out ! (x + y * DIM) =
                    fadd ops c (fmul ops (SPEED ops)
                      (fsub ops (fadd ops (fadd ops (fadd ops north south) west) east)
                         (fmul ops c (fconst ops 4)))))"
proof (intro exI conjI)
  show "launch (anim_blocks DIM) anim_threads (\<lambda>t. blend_kernel ops (int DIM) t outSrc inSrc) m
          = Some (m(outSrc \<mapsto> DiffusionStep ops DIM inp))"
    using anim_geometry assms(1-5) by (rule blend_launch)
  have "DiffusionStep ops DIM inp ! (x + y * DIM) = stencil ops DIM inp x y"
    using assms(6,7) by (rule nth_DiffusionStep)
  then show "let c = inp ! (x + y * DIM);
                 north = (if y = 0 then c else inp ! (x + (y - 1) * DIM));
                 south = (if y = DIM - 1 then c else inp ! (x + (y + 1) * DIM));
                 west = (if x = 0 then c else inp ! (x - 1 + y * DIM));
                 east = (if x = DIM - 1 then c else inp ! (x + 1 + y * DIM))
             in DiffusionStep ops DIM inp ! (x + y * DIM) =
                  fadd ops c (fmul ops (SPEED ops)
                    (fsub ops (fadd ops (fadd ops (fadd ops north south) west) east)
                       (fmul ops c (fconst ops 4))))"
    by (simp only: stencil_def Let_def)
qed

theorem blend_kernel_boundary_witness:
  "\<exists>out. launch (anim_blocks DIM) anim_threads (\<lambda>t. blend_kernel exact_arith (int DIM) t 2 1)
            [1 \<mapsto> (replicate (DIM * DIM) 0)[0 := 4], 2 \<mapsto> replicate (DIM * DIM) 3]
          = Some ([1 \<mapsto> (replicate (DIM * DIM) 0)[0 := 4], 2 \<mapsto> replicate (DIM * DIM) 3]
                    (2 \<mapsto> out))
      \<and> out ! 0 = 2"
proof -
  let ?inp = "(replicate (DIM * DIM) (0::real))[0 := 4]"
  let ?m = "[1 \<mapsto> ?inp, 2 \<mapsto> replicate (DIM * DIM) 3]"
  have n: "0 < DIM" "0 \<noteq> DIM - 1" by (simp_all add: DIM_def)
  have v: "?inp ! 0 = 4" "?inp ! DIM = 0" "?inp ! 1 = 0"
    by (simp_all add: DIM_def)
  have "\<exists>out. launch (anim_blocks DIM) anim_threads (\<lambda>t. blend_kernel exact_arith (int DIM) t 2 1) ?m
               = Some (?m(2 \<mapsto> out))
           \<and> out ! 0 = 2"
    using blend_kernel_boundary[of 1 2 ?m ?inp "replicate (DIM * DIM) 3" 0 0 exact_arith] n v
    by (simp add: exact_arith_def SPEED_def Let_def)
  then show ?thesis by blast
qed

text \<open>
  C9. Every thread of the launch of \<open>anim_gpu\<close> works on a cell \<open>(x, y)\<close> of the grid,
  every cell has its thread, and the five indices the thread computes (\<open>offset\<close> and
  the adjusted \<open>left\<close>, \<open>right\<close>, \<open>top\<close>, \<open>bottom\<close>) lie in \<open>[0, DIM * DIM)\<close>; the
  unadjusted \<open>offset - DIM\<close> and \<open>offset + DIM\<close> fit a 32-bit \<^verbatim>\<open>int\<close>. On three
  allocations of that size neither kernel reads or writes out of range: each thread
  and each launch returns a memory.
\<close>

theorem kernels_total:
  assumes "valid_state DIM d m"
    and "t \<in> set (threads_of (anim_blocks DIM) anim_threads)"
  shows "cell_x t < DIM \<and> cell_y t < DIM
       \<and> (\<lambda>t. (cell_x t, cell_y t)) ` set (threads_of (anim_blocks DIM) anim_threads)
             = {0..<DIM} \<times> {0..<DIM}
       \<and> i_offset (blend_indices (int DIM) t) = int (cell_x t + cell_y t * DIM)
       \<and> 0 \<le> i_offset (blend_indices (int DIM) t) \<and> i_offset (blend_indices (int DIM) t) < int (DIM * DIM)
       \<and> 0 \<le> i_left (blend_indices (int DIM) t) \<and> i_left (blend_indices (int DIM) t) < int (DIM * DIM)
       \<and> 0 \<le> i_right (blend_indices (int DIM) t) \<and> i_right (blend_indices (int DIM) t) < int (DIM * DIM)
       \<and> 0 \<le> i_top (blend_indices (int DIM) t) \<and> i_top (blend_indices (int DIM) t) < int (DIM * DIM)
       \<and> 0 \<le> i_bottom (blend_indices (int DIM) t) \<and> i_bottom (blend_indices (int DIM) t) < int (DIM * DIM)
       \<and> - (2 ^ 31) \<le> i_offset (blend_indices (int DIM) t) - int DIM
       \<and> i_offset (blend_indices (int DIM) t) + int DIM < 2 ^ 31
       \<and> (\<exists>m'. blend_kernel ops (int DIM) t (dev_outSrc d) (dev_inSrc d) m = Some m')
       \<and> (\<exists>m'. copy_const_kernel ops t (dev_inSrc d) (dev_constSrc d) m = Some m')
       \<and> (\<exists>m'. launch (anim_blocks DIM) anim_threads
                   (\<lambda>t. blend_kernel ops (int DIM) t (dev_outSrc d) (dev_inSrc d)) m = Some m')
       \<and> (\<exists>m'. launch (anim_blocks DIM) anim_threads
                   (\<lambda>t. copy_const_kernel ops t (dev_inSrc d) (dev_constSrc d)) m = Some m')"
proof -
  obtain a b c where mem: "m (dev_inSrc d) = Some a" "length a = DIM * DIM"
      "m (dev_outSrc d) = Some b" "length b = DIM * DIM"
      "m (dev_constSrc d) = Some c" "length c = DIM * DIM"
    and ne: "dev_inSrc d \<noteq> dev_outSrc d" "dev_inSrc d \<noteq> dev_constSrc d"
    using assms(1) by (auto simp: valid_state_def)
  note t = anim_threads_cells[OF assms(2)]
  note ix = blend_indices_cell[OF t(3) t(1) t(2)]
  note nb = neighbours_in_grid[OF t(1) t(2)]
  have cell: "cell_x t + cell_y t * DIM < DIM * DIM" by (rule nb(1))
  have cover: "(\<lambda>t. (cell_x t, cell_y t)) ` set (threads_of (anim_blocks DIM) anim_threads)
                 = {0..<DIM} \<times> {0..<DIM}"
  proof (intro set_eqI iffI)
    fix p assume "p \<in> (\<lambda>t. (cell_x t, cell_y t)) ` set (threads_of (anim_blocks DIM) anim_threads)"
    then show "p \<in> {0..<DIM} \<times> {0..<DIM}"
      using anim_threads_cells(1,2) by auto
  next
    fix p :: "nat \<times> nat" assume p: "p \<in> {0..<DIM} \<times> {0..<DIM}"
    then obtain t' where "t' \<in> set (threads_of (anim_blocks DIM) anim_threads)"
        "cell_x t' = fst p" "cell_y t' = snd p"
      using threads_of_cover[of "fst p" anim_threads "anim_blocks DIM" "snd p"] anim_geometry
      by auto
    then show "p \<in> (\<lambda>t. (cell_x t, cell_y t)) ` set (threads_of (anim_blocks DIM) anim_threads)"
      by (intro image_eqI[of _ _ t']) simp_all
  qed
  have k1: "\<exists>m'. blend_kernel ops (int DIM) t (dev_outSrc d) (dev_inSrc d) m = Some m'"
    using blend_kernel_thread[OF _ _ t(3) t(1) t(2) mem(1-4), of ops]
    by (simp add: cell_x_def cell_y_def)
  have k2: "\<exists>m'. copy_const_kernel ops t (dev_inSrc d) (dev_constSrc d) m = Some m'"
    using copy_const_kernel_thread[OF t(3) mem(5) _ mem(1), of ops] cell mem(2,6) by simp
  have l1: "\<exists>m'. launch (anim_blocks DIM) anim_threads
                   (\<lambda>t. blend_kernel ops (int DIM) t (dev_outSrc d) (dev_inSrc d)) m = Some m'"
    using blend_launch[OF anim_geometry ne(1) mem(1-4), of ops] by simp
  have l2: "\<exists>m'. launch (anim_blocks DIM) anim_threads
                   (\<lambda>t. copy_const_kernel ops t (dev_inSrc d) (dev_constSrc d)) m = Some m'"
    using copy_const_launch[OF anim_geometry ne(2) mem(5,6) mem(1,2), of ops] by simp
  have b0: "i_offset (blend_indices (int DIM) t) = int (cell_x t + cell_y t * DIM)"
    by (simp add: ix)
  have b1: "0 \<le> i_offset (blend_indices (int DIM) t) \<and> i_offset (blend_indices (int DIM) t) < int (DIM * DIM)"
    unfolding ix using nb(1) by (simp only: blend_idx.simps of_nat_0_le_iff of_nat_less_iff simp_thms)
  have b2: "0 \<le> i_left (blend_indices (int DIM) t) \<and> i_left (blend_indices (int DIM) t) < int (DIM * DIM)"
    unfolding ix using nb(2) by (simp only: blend_idx.simps of_nat_0_le_iff of_nat_less_iff simp_thms)
  have b3: "0 \<le> i_right (blend_indices (int DIM) t) \<and> i_right (blend_indices (int DIM) t) < int (DIM * DIM)"
    unfolding ix using nb(3) by (simp only: blend_idx.simps of_nat_0_le_iff of_nat_less_iff simp_thms)
  have b4: "0 \<le> i_top (blend_indices (int DIM) t) \<and> i_top (blend_indices (int DIM) t) < int (DIM * DIM)"
    unfolding ix using nb(4) by (simp only: blend_idx.simps of_nat_0_le_iff of_nat_less_iff simp_thms)
  have b5: "0 \<le> i_bottom (blend_indices (int DIM) t) \<and> i_bottom (blend_indices (int DIM) t) < int (DIM * DIM)"
    unfolding ix using nb(5) by (simp only: blend_idx.simps of_nat_0_le_iff of_nat_less_iff simp_thms)
  have ov: "- (2 ^ 31) \<le> i_offset (blend_indices (int DIM) t) - int DIM"
      "i_offset (blend_indices (int DIM) t) + int DIM < 2 ^ 31"
    using b1 by (simp_all add: DIM_def)
  show ?thesis
    using t(1,2) cover b0 b1 b2 b3 b4 b5 ov k1 k2 l1 l2 by blast
qed

theorem kernels_total_witness:
  "i_offset (blend_indices (int DIM)
       \<lparr>threadIdx = \<lparr>dim_x = 15, dim_y = 15\<rparr>, blockIdx = \<lparr>dim_x = 63, dim_y = 63\<rparr>,
        blockDim = anim_threads, gridDim = anim_blocks DIM\<rparr>) = int (1023 + 1023 * DIM)
   \<and> i_right (blend_indices (int DIM)
       \<lparr>threadIdx = \<lparr>dim_x = 15, dim_y = 15\<rparr>, blockIdx = \<lparr>dim_x = 63, dim_y = 63\<rparr>,
        blockDim = anim_threads, gridDim = anim_blocks DIM\<rparr>) < int (DIM * DIM)
   \<and> i_bottom (blend_indices (int DIM)
       \<lparr>threadIdx = \<lparr>dim_x = 15, dim_y = 15\<rparr>, blockIdx = \<lparr>dim_x = 63, dim_y = 63\<rparr>,
        blockDim = anim_threads, gridDim = anim_blocks DIM\<rparr>) < int (DIM * DIM)
   \<and> (\<exists>m'. blend_kernel exact_arith (int DIM)
         \<lparr>threadIdx = \<lparr>dim_x = 15, dim_y = 15\<rparr>, blockIdx = \<lparr>dim_x = 63, dim_y = 63\<rparr>,
          blockDim = anim_threads, gridDim = anim_blocks DIM\<rparr> 2 1
         [1 \<mapsto> replicate (DIM * DIM) 1, 2 \<mapsto> replicate (DIM * DIM) 2, 3 \<mapsto> replicate (DIM * DIM) 0]
         = Some m')
   \<and> (\<exists>m'. launch (anim_blocks DIM) anim_threads (\<lambda>t. blend_kernel exact_arith (int DIM) t 2 1)
         [1 \<mapsto> replicate (DIM * DIM) 1, 2 \<mapsto> replicate (DIM * DIM) 2, 3 \<mapsto> replicate (DIM * DIM) 0]
         = Some m')
   \<and> (\<exists>m'. launch (anim_blocks DIM) anim_threads (\<lambda>t. copy_const_kernel exact_arith t 1 3)
         [1 \<mapsto> replicate (DIM * DIM) 1, 2 \<mapsto> replicate (DIM * DIM) 2, 3 \<mapsto> replicate (DIM * DIM) 0]
         = Some m')"
proof -
  let ?t = "\<lparr>threadIdx = \<lparr>dim_x = 15, dim_y = 15\<rparr>, blockIdx = \<lparr>dim_x = 63, dim_y = 63\<rparr>,
             blockDim = anim_threads, gridDim = anim_blocks DIM\<rparr>"
  let ?d = "\<lparr>dev_inSrc = 1, dev_outSrc = 2, dev_constSrc = 3\<rparr>"
  let ?m = "[1 \<mapsto> replicate (DIM * DIM) (1::real), 2 \<mapsto> replicate (DIM * DIM) 2,
             3 \<mapsto> replicate (DIM * DIM) 0]"
  have v: "valid_state DIM ?d ?m" by (simp add: valid_state_def)
  have t: "?t \<in> set (threads_of (anim_blocks DIM) anim_threads)"
    by (simp add: threads_of_iff anim_blocks_def anim_threads_def DIM_def)
  have c: "cell_x ?t = 1023" "cell_y ?t = 1023"
    by (simp_all add: cell_x_def cell_y_def anim_threads_def)
  show ?thesis
    using kernels_total[OF v t, of exact_arith] c by simp
qed

section \<open>The frame\<close>

lemma valid_stateE:
  assumes "valid_state D d m"
  obtains cur nxt cmask where
    "m (dev_inSrc d) = Some cur" "length cur = D * D"
    "m (dev_outSrc d) = Some nxt" "length nxt = D * D"
    "m (dev_constSrc d) = Some cmask" "length cmask = D * D"
    "dev_inSrc d \<noteq> dev_outSrc d" "dev_inSrc d \<noteq> dev_constSrc d" "dev_outSrc d \<noteq> dev_constSrc d"
  using assms by (auto simp: valid_state_def)

lemma Substep_valid:
  assumes "valid_state D d m"
  shows "\<exists>d' m'. SpecSubstep ops D (d, m) = Some (d', m') \<and> valid_state D d' m'"
proof -
  from assms obtain cur nxt cmask where mem:
    "m (dev_inSrc d) = Some cur" "length cur = D * D"
    "m (dev_outSrc d) = Some nxt" "length nxt = D * D"
    "m (dev_constSrc d) = Some cmask" "length cmask = D * D"
    "dev_inSrc d \<noteq> dev_outSrc d" "dev_inSrc d \<noteq> dev_constSrc d" "dev_outSrc d \<noteq> dev_constSrc d"
    by (rule valid_stateE)
  then show ?thesis
    by (auto simp: SpecSubstep_def valid_state_def Let_def)
qed

lemma substep_Substep:
  assumes v: "valid_state D d m"
    and geo: "dim_x threads * dim_x blocks = D" "dim_y threads * dim_y blocks = D"
  shows "substep ops D blocks threads (d, m) = SpecSubstep ops D (d, m)"
proof -
  from v obtain cur nxt cmask where mem:
    "m (dev_inSrc d) = Some cur" "length cur = D * D"
    "m (dev_outSrc d) = Some nxt" "length nxt = D * D"
    "m (dev_constSrc d) = Some cmask" "length cmask = D * D"
    "dev_inSrc d \<noteq> dev_outSrc d" "dev_inSrc d \<noteq> dev_constSrc d" "dev_outSrc d \<noteq> dev_constSrc d"
    by (rule valid_stateE)
  let ?c = "SourceClampStep ops cur cmask"
  let ?m1 = "m(dev_inSrc d \<mapsto> ?c)"
  have l1: "launch blocks threads (\<lambda>t. copy_const_kernel ops t (dev_inSrc d) (dev_constSrc d)) m
              = Some ?m1"
    by (rule copy_const_launch[OF geo mem(8) mem(5,6) mem(1,2)])
  have l2: "launch blocks threads (\<lambda>t. blend_kernel ops (int D) t (dev_outSrc d) (dev_inSrc d)) ?m1
              = Some (?m1(dev_outSrc d \<mapsto> DiffusionStep ops D ?c))"
  proof -
    have a1: "?m1 (dev_inSrc d) = Some ?c" by simp
    have a2: "length ?c = D * D" using mem(2,6) by simp
    have b1: "?m1 (dev_outSrc d) = Some nxt" using mem(3,7) by simp
    show ?thesis by (rule blend_launch[OF geo mem(7) a1 a2 b1 mem(4)])
  qed
  show ?thesis
    using l1 l2 mem(1,5) by (simp add: substep_def SpecSubstep_def Let_def)
qed

lemma anim_loop_repeat:
  "anim_loop ops D blocks threads i s = repeat (nat (90 - i)) (substep ops D blocks threads) s"
proof (induction ops D blocks threads i s rule: anim_loop.induct)
  case (1 ops D blocks threads i s)
  show ?case
  proof (cases "i < 90")
    case True
    then have n: "nat (90 - i) = Suc (nat (90 - (i + 1)))" by simp
    show ?thesis
      using True "1.IH" 
      by (subst anim_loop.simps, subst n) (simp split: option.splits)
  next
    case False
    then show ?thesis by (subst anim_loop.simps) simp
  qed
qed

lemma repeat_Substep:
  assumes "valid_state D d m"
    and geo: "dim_x threads * dim_x blocks = D" "dim_y threads * dim_y blocks = D"
  shows "repeat n (substep ops D blocks threads) (d, m) = repeat n (SpecSubstep ops D) (d, m)
       \<and> (\<exists>d' m'. repeat n (SpecSubstep ops D) (d, m) = Some (d', m') \<and> valid_state D d' m')"
  using assms(1)
proof (induction n arbitrary: d m)
  case 0
  then show ?case by simp
next
  case (Suc n)
  obtain d' m' where s: "SpecSubstep ops D (d, m) = Some (d', m')" "valid_state D d' m'"
    using Substep_valid[OF Suc.prems] by blast
  have "substep ops D blocks threads (d, m) = Some (d', m')"
    using substep_Substep[OF Suc.prems geo] s(1) by simp
  then show ?case using s Suc.IH[OF s(2)] by simp
qed

text \<open>
  C3. One call of \<open>anim_gpu\<close> runs exactly 90 substeps and hands the resulting current
  grid to the display. Each pass of the loop is the substep of the specification:
  clamp the current buffer in place, diffuse from current into next, exchange the two
  pointers; the exchange leaves the device memory as the two kernels wrote it.
\<close>

theorem anim_gpu_substeps:
  assumes "valid_state DIM d m"
  shows "substep ops DIM (anim_blocks DIM) anim_threads (d, m) = SpecSubstep ops DIM (d, m)
       \<and> anim_gpu ops DIM d m =
           do {
             (d', m') \<leftarrow> repeat 90 (SpecSubstep ops DIM) (d, m);
             shown \<leftarrow> m' (dev_inSrc d');
             Some (d', m', shown)
           }
       \<and> (\<exists>d' m' shown. anim_gpu ops DIM d m = Some (d', m', shown)
             \<and> repeat 90 (SpecSubstep ops DIM) (d, m) = Some (d', m')
             \<and> m' (dev_inSrc d') = Some shown)"
proof -
  have one: "substep ops DIM (anim_blocks DIM) anim_threads (d, m) = SpecSubstep ops DIM (d, m)"
    using assms anim_geometry by (rule substep_Substep)
  have loop: "anim_loop ops DIM (anim_blocks DIM) anim_threads 0 (d, m)
                = repeat 90 (SpecSubstep ops DIM) (d, m)"
  proof -
    have "anim_loop ops DIM (anim_blocks DIM) anim_threads 0 (d, m)
            = repeat 90 (substep ops DIM (anim_blocks DIM) anim_threads) (d, m)"
      by (simp only: anim_loop_repeat) simp
    then show ?thesis
      using repeat_Substep[OF assms anim_geometry, of 90 ops] by simp
  qed
  obtain d' m' where r: "repeat 90 (SpecSubstep ops DIM) (d, m) = Some (d', m')" "valid_state DIM d' m'"
    using repeat_Substep[OF assms anim_geometry, of 90 ops] by blast
  obtain shown where sh: "m' (dev_inSrc d') = Some shown"
    using r(2) by (auto elim: valid_stateE)
  have eq: "anim_gpu ops DIM d m =
           do {
             (d', m') \<leftarrow> repeat 90 (SpecSubstep ops DIM) (d, m);
             shown \<leftarrow> m' (dev_inSrc d');
             Some (d', m', shown)
           }"
    by (simp only: anim_gpu_def Let_def loop)
  have "anim_gpu ops DIM d m = Some (d', m', shown)"
    unfolding eq using r(1) sh by simp
  then show ?thesis using one eq r(1) sh by blast
qed

theorem anim_gpu_substeps_witness:
  "\<exists>d' m' shown.
     anim_gpu exact_arith DIM \<lparr>dev_inSrc = 1, dev_outSrc = 2, dev_constSrc = 3\<rparr>
       [1 \<mapsto> replicate (DIM * DIM) 1, 2 \<mapsto> replicate (DIM * DIM) 2, 3 \<mapsto> replicate (DIM * DIM) 0]
       = Some (d', m', shown)
     \<and> repeat 90 (SpecSubstep exact_arith DIM)
         (\<lparr>dev_inSrc = 1, dev_outSrc = 2, dev_constSrc = 3\<rparr>,
          [1 \<mapsto> replicate (DIM * DIM) 1, 2 \<mapsto> replicate (DIM * DIM) 2, 3 \<mapsto> replicate (DIM * DIM) 0])
         = Some (d', m')
     \<and> m' (dev_inSrc d') = Some shown"
proof -
  let ?d = "\<lparr>dev_inSrc = 1, dev_outSrc = 2, dev_constSrc = 3\<rparr>"
  let ?m = "[1 \<mapsto> replicate (DIM * DIM) (1::real), 2 \<mapsto> replicate (DIM * DIM) 2,
             3 \<mapsto> replicate (DIM * DIM) 0]"
  have v: "valid_state DIM ?d ?m" by (simp add: valid_state_def)
  show ?thesis
    using anim_gpu_substeps[OF v, of exact_arith] by blast
qed

lemma repeat_Suc_end:
  "repeat (Suc n) f s = (case repeat n f s of None \<Rightarrow> None | Some s' \<Rightarrow> f s')"
proof (induction n arbitrary: s)
  case 0
  then show ?case by (simp split: option.splits)
next
  case (Suc n)
  show ?case
  proof (cases "f s")
    case None
    then show ?thesis by simp
  next
    case (Some s')
    have "repeat (Suc (Suc n)) f s = repeat (Suc n) f s'" using Some by simp
    also have "\<dots> = (case repeat n f s' of None \<Rightarrow> None | Some s'' \<Rightarrow> f s'')" by (rule Suc.IH)
    also have "\<dots> = (case repeat (Suc n) f s of None \<Rightarrow> None | Some s'' \<Rightarrow> f s'')"
      using Some by simp
    finally show ?thesis .
  qed
qed

lemma repeat_Substep_mask:
  assumes "valid_state D d m"
  shows "\<exists>d' m'. repeat n (SpecSubstep ops D) (d, m) = Some (d', m') \<and> valid_state D d' m'
           \<and> dev_constSrc d' = dev_constSrc d \<and> m' (dev_constSrc d') = m (dev_constSrc d)"
  using assms
proof (induction n arbitrary: d m)
  case 0
  then show ?case by simp
next
  case (Suc n)
  from Suc.prems obtain cur nxt cmask where mem:
    "m (dev_inSrc d) = Some cur" "length cur = D * D"
    "m (dev_outSrc d) = Some nxt" "length nxt = D * D"
    "m (dev_constSrc d) = Some cmask" "length cmask = D * D"
    "dev_inSrc d \<noteq> dev_outSrc d" "dev_inSrc d \<noteq> dev_constSrc d" "dev_outSrc d \<noteq> dev_constSrc d"
    by (rule valid_stateE)
  let ?c = "SourceClampStep ops cur cmask"
  let ?d = "d\<lparr>dev_inSrc := dev_outSrc d, dev_outSrc := dev_inSrc d\<rparr>"
  let ?m = "m(dev_inSrc d \<mapsto> ?c, dev_outSrc d \<mapsto> DiffusionStep ops D ?c)"
  have s: "SpecSubstep ops D (d, m) = Some (?d, ?m)"
    using mem by (simp add: SpecSubstep_def Let_def)
  have v: "valid_state D ?d ?m"
    using mem by (simp add: valid_state_def)
  have k: "dev_constSrc ?d = dev_constSrc d" "?m (dev_constSrc ?d) = m (dev_constSrc d)"
    using mem by simp_all
  obtain d' m' where r: "repeat n (SpecSubstep ops D) (?d, ?m) = Some (d', m')" "valid_state D d' m'"
      "dev_constSrc d' = dev_constSrc ?d" "m' (dev_constSrc d') = ?m (dev_constSrc ?d)"
    using Suc.IH[OF v] by blast
  have "repeat (Suc n) (SpecSubstep ops D) (d, m) = Some (d', m')"
    using s r(1) by (simp only: repeat.simps option.case)
  moreover have "dev_constSrc d' = dev_constSrc d" "m' (dev_constSrc d') = m (dev_constSrc d)"
    using r(3,4) k by (simp_all only:)
  ultimately show ?case using r(2) by blast
qed

lemma anim_gpu_shown:
  assumes v: "valid_state DIM d m" and c: "m (dev_constSrc d) = Some cmask"
  shows "\<exists>d1 m1 g d' m'.
           repeat 89 (substep ops DIM (anim_blocks DIM) anim_threads) (d, m) = Some (d1, m1)
         \<and> m1 (dev_inSrc d1) = Some g \<and> length g = DIM * DIM
         \<and> anim_gpu ops DIM d m =
             Some (d', m', DiffusionStep ops DIM (SourceClampStep ops g cmask))"
proof -
  obtain d1 m1 where r: "repeat 89 (SpecSubstep ops DIM) (d, m) = Some (d1, m1)"
      "valid_state DIM d1 m1" "dev_constSrc d1 = dev_constSrc d"
      "m1 (dev_constSrc d1) = m (dev_constSrc d)"
    using repeat_Substep_mask[OF v, of 89 ops] by blast
  have r': "repeat 89 (substep ops DIM (anim_blocks DIM) anim_threads) (d, m) = Some (d1, m1)"
    using repeat_Substep[OF v anim_geometry, of 89 ops] r(1) by simp
  from r(2) obtain cur nxt cm where mem:
    "m1 (dev_inSrc d1) = Some cur" "length cur = DIM * DIM"
    "m1 (dev_outSrc d1) = Some nxt" "length nxt = DIM * DIM"
    "m1 (dev_constSrc d1) = Some cm" "length cm = DIM * DIM"
    "dev_inSrc d1 \<noteq> dev_outSrc d1" "dev_inSrc d1 \<noteq> dev_constSrc d1" "dev_outSrc d1 \<noteq> dev_constSrc d1"
    by (rule valid_stateE)
  have cm: "cm = cmask" using mem(5) r(4) c by simp
  let ?c = "SourceClampStep ops cur cmask"
  let ?d = "d1\<lparr>dev_inSrc := dev_outSrc d1, dev_outSrc := dev_inSrc d1\<rparr>"
  let ?m = "m1(dev_inSrc d1 \<mapsto> ?c, dev_outSrc d1 \<mapsto> DiffusionStep ops DIM ?c)"
  have s: "SpecSubstep ops DIM (d1, m1) = Some (?d, ?m)"
    using mem cm by (simp add: SpecSubstep_def Let_def)
  have "repeat (Suc 89) (SpecSubstep ops DIM) (d, m) = Some (?d, ?m)"
    unfolding repeat_Suc_end using r(1) s by simp
  then have r90: "repeat 90 (SpecSubstep ops DIM) (d, m) = Some (?d, ?m)" by simp
  have loop: "anim_loop ops DIM (anim_blocks DIM) anim_threads 0 (d, m) = Some (?d, ?m)"
  proof -
    have "anim_loop ops DIM (anim_blocks DIM) anim_threads 0 (d, m)
            = repeat 90 (substep ops DIM (anim_blocks DIM) anim_threads) (d, m)"
      by (simp only: anim_loop_repeat) simp
    then show ?thesis
      using repeat_Substep[OF v anim_geometry, of 90 ops] r90 by simp
  qed
  have "anim_gpu ops DIM d m = Some (?d, ?m, DiffusionStep ops DIM ?c)"
    by (simp add: anim_gpu_def Let_def loop)
  then show ?thesis using r' mem(1,2) by blast
qed

section \<open>The grid at rest\<close>

lemma zero_at_rest_exact: "zero_at_rest exact_arith"
  by (simp add: zero_at_rest_def exact_arith_def)

lemma SourceClampStep_zero:
  assumes "zero_at_rest ops"
  shows "SourceClampStep ops (replicate n (fconst ops 0)) (replicate n (fconst ops 0))
           = replicate n (fconst ops 0)"
  using assms
  by (intro nth_equalityI) (simp_all add: nth_SourceClampStep clamp_cell_def zero_at_rest_def)

lemma stencil_zero:
  assumes z: "zero_at_rest ops" and x: "x < D" and y: "y < D"
  shows "stencil ops D (replicate (D * D) (fconst ops 0)) x y = fconst ops 0"
proof -
  let ?z = "fconst ops 0"
  let ?g = "replicate (D * D) ?z"
  note nb = neighbours_in_grid[OF x y]
  have c: "?g ! (x + y * D) = ?z" using nb(1) by simp
  have w: "(if x = 0 then ?z else ?g ! (x - 1 + y * D)) = ?z"
    using nb(2) by (auto split: if_splits)
  have e: "(if x = D - 1 then ?z else ?g ! (x + 1 + y * D)) = ?z"
    using nb(3) by (auto split: if_splits)
  have n: "(if y = 0 then ?z else ?g ! (x + (y - 1) * D)) = ?z"
    using nb(4) by (auto split: if_splits)
  have s: "(if y = D - 1 then ?z else ?g ! (x + (y + 1) * D)) = ?z"
    using nb(5) by (auto split: if_splits)
  show ?thesis
    unfolding stencil_def Let_def c w e n s
    using z by (simp add: zero_at_rest_def)
qed

lemma DiffusionStep_zero:
  assumes z: "zero_at_rest ops"
  shows "DiffusionStep ops D (replicate (D * D) (fconst ops 0)) = replicate (D * D) (fconst ops 0)"
proof (rule nth_equalityI)
  show "length (DiffusionStep ops D (replicate (D * D) (fconst ops 0)))
          = length (replicate (D * D) (fconst ops 0))"
    by simp
next
  fix i assume "i < length (DiffusionStep ops D (replicate (D * D) (fconst ops 0)))"
  then have i: "i < D * D" by simp
  then have D: "0 < D" by (auto intro: Nat.gr0I)
  have xy: "i mod D < D" "i div D < D"
    using i D by (simp_all add: less_mult_imp_div_less)
  show "DiffusionStep ops D (replicate (D * D) (fconst ops 0)) ! i
          = replicate (D * D) (fconst ops 0) ! i"
    using i stencil_zero[OF z xy] by (simp add: DiffusionStep_def)
qed

lemma Substep_zero:
  assumes z: "zero_at_rest ops" and v: "valid_state D d m"
    and cur: "m (dev_inSrc d) = Some (replicate (D * D) (fconst ops 0))"
    and msk: "m (dev_constSrc d) = Some (replicate (D * D) (fconst ops 0))"
  shows "\<exists>d' m'. SpecSubstep ops D (d, m) = Some (d', m') \<and> valid_state D d' m'
           \<and> m' (dev_inSrc d') = Some (replicate (D * D) (fconst ops 0))
           \<and> m' (dev_constSrc d') = Some (replicate (D * D) (fconst ops 0))"
proof -
  let ?z = "replicate (D * D) (fconst ops 0)"
  let ?d = "d\<lparr>dev_inSrc := dev_outSrc d, dev_outSrc := dev_inSrc d\<rparr>"
  let ?m = "m(dev_inSrc d \<mapsto> ?z, dev_outSrc d \<mapsto> ?z)"
  have ne: "dev_inSrc d \<noteq> dev_outSrc d" "dev_inSrc d \<noteq> dev_constSrc d"
      "dev_outSrc d \<noteq> dev_constSrc d"
    using v by (auto elim: valid_stateE)
  have s: "SpecSubstep ops D (d, m) = Some (?d, ?m)"
    using cur msk by (simp add: SpecSubstep_def Let_def SourceClampStep_zero[OF z] DiffusionStep_zero[OF z])
  moreover have "valid_state D ?d ?m"
    using ne msk by (simp add: valid_state_def)
  moreover have "?m (dev_inSrc ?d) = Some ?z" by simp
  moreover have "?m (dev_constSrc ?d) = Some ?z" using ne msk by simp
  ultimately show ?thesis by blast
qed

lemma repeat_Substep_zero:
  assumes z: "zero_at_rest ops" and v: "valid_state D d m"
    and cur: "m (dev_inSrc d) = Some (replicate (D * D) (fconst ops 0))"
    and msk: "m (dev_constSrc d) = Some (replicate (D * D) (fconst ops 0))"
  shows "\<exists>d' m'. repeat n (SpecSubstep ops D) (d, m) = Some (d', m') \<and> valid_state D d' m'
           \<and> m' (dev_inSrc d') = Some (replicate (D * D) (fconst ops 0))
           \<and> m' (dev_constSrc d') = Some (replicate (D * D) (fconst ops 0))"
  using v cur msk
proof (induction n arbitrary: d m)
  case 0
  then show ?case by simp
next
  case (Suc n)
  obtain d1 m1 where s: "SpecSubstep ops D (d, m) = Some (d1, m1)" "valid_state D d1 m1"
      "m1 (dev_inSrc d1) = Some (replicate (D * D) (fconst ops 0))"
      "m1 (dev_constSrc d1) = Some (replicate (D * D) (fconst ops 0))"
    using Substep_zero[OF z Suc.prems] by blast
  show ?case
    using Suc.IH[OF s(2,3,4)] s(1) by simp
qed

text \<open>
  C8. On an arithmetic in which 0 is at rest, if the current grid and the mask are
  all 0 then after any number of substeps of \<open>anim_gpu\<close> the current grid is all 0,
  and so is the grid a frame shows.
\<close>

theorem zero_grid_stays_zero:
  assumes "zero_at_rest ops" and "valid_state DIM d m"
    and "m (dev_inSrc d) = Some (replicate (DIM * DIM) (fconst ops 0))"
    and "m (dev_constSrc d) = Some (replicate (DIM * DIM) (fconst ops 0))"
  shows "(\<exists>d' m'. repeat n (substep ops DIM (anim_blocks DIM) anim_threads) (d, m) = Some (d', m')
            \<and> m' (dev_inSrc d') = Some (replicate (DIM * DIM) (fconst ops 0)))
       \<and> (\<exists>d' m'. anim_gpu ops DIM d m = Some (d', m', replicate (DIM * DIM) (fconst ops 0)))"
proof
  obtain d' m' where r: "repeat n (SpecSubstep ops DIM) (d, m) = Some (d', m')"
      "m' (dev_inSrc d') = Some (replicate (DIM * DIM) (fconst ops 0))"
    using repeat_Substep_zero[OF assms, of n] by blast
  have "repeat n (substep ops DIM (anim_blocks DIM) anim_threads) (d, m) = Some (d', m')"
    using repeat_Substep[OF assms(2) anim_geometry, of n ops] r(1) by simp
  then show "\<exists>d' m'. repeat n (substep ops DIM (anim_blocks DIM) anim_threads) (d, m) = Some (d', m')
            \<and> m' (dev_inSrc d') = Some (replicate (DIM * DIM) (fconst ops 0))"
    using r(2) by blast
next
  obtain d' m' where r: "repeat 90 (SpecSubstep ops DIM) (d, m) = Some (d', m')"
      "m' (dev_inSrc d') = Some (replicate (DIM * DIM) (fconst ops 0))"
    using repeat_Substep_zero[OF assms, of 90] by blast
  have "anim_loop ops DIM (anim_blocks DIM) anim_threads 0 (d, m)
          = repeat 90 (substep ops DIM (anim_blocks DIM) anim_threads) (d, m)"
    by (simp only: anim_loop_repeat) simp
  then have "anim_loop ops DIM (anim_blocks DIM) anim_threads 0 (d, m) = Some (d', m')"
    using repeat_Substep[OF assms(2) anim_geometry, of 90 ops] r(1) by simp
  then have "anim_gpu ops DIM d m = Some (d', m', replicate (DIM * DIM) (fconst ops 0))"
    using r(2) by (simp add: anim_gpu_def Let_def)
  then show "\<exists>d' m'. anim_gpu ops DIM d m = Some (d', m', replicate (DIM * DIM) (fconst ops 0))"
    by blast
qed

theorem zero_grid_stays_zero_witness:
  "(\<exists>d' m'. repeat 7 (substep exact_arith DIM (anim_blocks DIM) anim_threads)
        (\<lparr>dev_inSrc = 1, dev_outSrc = 2, dev_constSrc = 3\<rparr>,
         [1 \<mapsto> replicate (DIM * DIM) 0, 2 \<mapsto> replicate (DIM * DIM) 5, 3 \<mapsto> replicate (DIM * DIM) 0])
        = Some (d', m')
      \<and> m' (dev_inSrc d') = Some (replicate (DIM * DIM) 0))
   \<and> (\<exists>d' m'. anim_gpu exact_arith DIM \<lparr>dev_inSrc = 1, dev_outSrc = 2, dev_constSrc = 3\<rparr>
         [1 \<mapsto> replicate (DIM * DIM) 0, 2 \<mapsto> replicate (DIM * DIM) 5, 3 \<mapsto> replicate (DIM * DIM) 0]
        = Some (d', m', replicate (DIM * DIM) 0))"
proof -
  let ?d = "\<lparr>dev_inSrc = 1, dev_outSrc = 2, dev_constSrc = 3\<rparr>"
  let ?m = "[1 \<mapsto> replicate (DIM * DIM) (0::real), 2 \<mapsto> replicate (DIM * DIM) 5,
             3 \<mapsto> replicate (DIM * DIM) 0]"
  have v: "valid_state DIM ?d ?m" by (simp add: valid_state_def)
  have f: "fconst exact_arith 0 = 0" by (simp add: exact_arith_def)
  show ?thesis
    using zero_grid_stays_zero[OF zero_at_rest_exact v, of 7] by (simp add: f)
qed

section \<open>What a frame shows\<close>

lemma pinned_corner_shown:
  fixes g :: "real list"
  assumes g: "length g = DIM * DIM"
  shows "DiffusionStep exact_arith DIM
           (SourceClampStep exact_arith g ((replicate (DIM * DIM) 0)[0 := 1, 1 := - 1, DIM := - 1])) ! 0 = 0"
proof -
  let ?c = "(replicate (DIM * DIM) (0::real))[0 := 1, 1 := - 1, DIM := - 1]"
  let ?k = "SourceClampStep exact_arith g ?c"
  have n: "0 < DIM" "1 < DIM" "DIM < DIM * DIM" "0 \<noteq> DIM - 1" "1 < DIM * DIM" "0 < DIM * DIM"
    by (simp_all add: DIM_def)
  have c: "?c ! 0 = 1" "?c ! 1 = - 1" "?c ! DIM = - 1"
    using n by simp_all
  have k: "?k ! 0 = 1" "?k ! 1 = - 1" "?k ! DIM = - 1"
    using n g c by (simp_all add: nth_SourceClampStep clamp_cell_def exact_arith_def)
  have "DiffusionStep exact_arith DIM ?k ! (0 + 0 * DIM) = stencil exact_arith DIM ?k 0 0"
    using n(1) by (intro nth_DiffusionStep)
  then show ?thesis
    using k n(4) by (simp add: stencil_def Let_def exact_arith_def SPEED_def)
qed

text \<open>
  C10. The grid a frame shows is the output of the 90th diffusion, computed from the
  clamped grid of the 89th substep, with no clamp after it. So a pinned cell can be
  shown with a value other than its mask value: with the mask 1 at cell \<open>(0, 0)\<close> and
  \<open>-1\<close> at its two neighbours, cell \<open>(0, 0)\<close> is shown as 0.
\<close>

theorem anim_gpu_shows_unclamped:
  assumes "valid_state DIM d m" and "m (dev_constSrc d) = Some cmask"
  shows "(\<exists>d1 m1 g d' m'.
            repeat 89 (substep ops DIM (anim_blocks DIM) anim_threads) (d, m) = Some (d1, m1)
          \<and> m1 (dev_inSrc d1) = Some g
          \<and> anim_gpu ops DIM d m =
              Some (d', m', DiffusionStep ops DIM (SourceClampStep ops g cmask)))
       \<and> (\<exists>d0 m0 c0 d' m' shown i.
            valid_state DIM d0 m0 \<and> m0 (dev_constSrc d0) = Some c0
          \<and> anim_gpu exact_arith DIM d0 m0 = Some (d', m', shown)
          \<and> i < DIM * DIM \<and> fne exact_arith (c0 ! i) (fconst exact_arith 0)
          \<and> shown ! i \<noteq> c0 ! i)"
proof
  show "\<exists>d1 m1 g d' m'.
            repeat 89 (substep ops DIM (anim_blocks DIM) anim_threads) (d, m) = Some (d1, m1)
          \<and> m1 (dev_inSrc d1) = Some g
          \<and> anim_gpu ops DIM d m =
              Some (d', m', DiffusionStep ops DIM (SourceClampStep ops g cmask))"
    using anim_gpu_shown[OF assms, of ops] by blast
next
  let ?d = "\<lparr>dev_inSrc = 1, dev_outSrc = 2, dev_constSrc = 3\<rparr>"
  let ?c = "(replicate (DIM * DIM) (0::real))[0 := 1, 1 := - 1, DIM := - 1]"
  let ?m = "[1 \<mapsto> replicate (DIM * DIM) (0::real), 2 \<mapsto> replicate (DIM * DIM) 0, 3 \<mapsto> ?c]"
  have v: "valid_state DIM ?d ?m" by (simp add: valid_state_def)
  have c: "?m (dev_constSrc ?d) = Some ?c" by simp
  obtain g d' m' where r: "length g = DIM * DIM"
      "anim_gpu exact_arith DIM ?d ?m =
         Some (d', m', DiffusionStep exact_arith DIM (SourceClampStep exact_arith g ?c))"
    using anim_gpu_shown[OF v c, of exact_arith] by blast
  have z: "DiffusionStep exact_arith DIM (SourceClampStep exact_arith g ?c) ! 0 = 0"
    using r(1) by (rule pinned_corner_shown)
  have n: "0 < DIM * DIM" "0 < DIM" by (simp_all add: DIM_def)
  have c0: "?c ! 0 = 1" using n by simp
  have "fne exact_arith (?c ! 0) (fconst exact_arith 0)"
    unfolding c0 by (simp add: exact_arith_def)
  moreover have "DiffusionStep exact_arith DIM (SourceClampStep exact_arith g ?c) ! 0 \<noteq> ?c ! 0"
    unfolding z c0 by simp
  ultimately show "\<exists>d0 m0 c0 d' m' shown i.
            valid_state DIM d0 m0 \<and> m0 (dev_constSrc d0) = Some c0
          \<and> anim_gpu exact_arith DIM d0 m0 = Some (d', m', shown)
          \<and> i < DIM * DIM \<and> fne exact_arith (c0 ! i) (fconst exact_arith 0)
          \<and> shown ! i \<noteq> c0 ! i"
    using v c r(2) n(1) by blast
qed

theorem anim_gpu_shows_unclamped_witness:
  "\<exists>d1 m1 g d' m'.
      repeat 89 (substep exact_arith DIM (anim_blocks DIM) anim_threads)
        (\<lparr>dev_inSrc = 1, dev_outSrc = 2, dev_constSrc = 3\<rparr>,
         [1 \<mapsto> replicate (DIM * DIM) 0, 2 \<mapsto> replicate (DIM * DIM) 0,
          3 \<mapsto> (replicate (DIM * DIM) 0)[0 := 1, 1 := - 1, DIM := - 1]]) = Some (d1, m1)
    \<and> m1 (dev_inSrc d1) = Some g
    \<and> anim_gpu exact_arith DIM \<lparr>dev_inSrc = 1, dev_outSrc = 2, dev_constSrc = 3\<rparr>
         [1 \<mapsto> replicate (DIM * DIM) 0, 2 \<mapsto> replicate (DIM * DIM) 0,
          3 \<mapsto> (replicate (DIM * DIM) 0)[0 := 1, 1 := - 1, DIM := - 1]]
        = Some (d', m', DiffusionStep exact_arith DIM
            (SourceClampStep exact_arith g ((replicate (DIM * DIM) 0)[0 := 1, 1 := - 1, DIM := - 1])))"
proof -
  let ?d = "\<lparr>dev_inSrc = 1, dev_outSrc = 2, dev_constSrc = 3\<rparr>"
  let ?c = "(replicate (DIM * DIM) (0::real))[0 := 1, 1 := - 1, DIM := - 1]"
  let ?m = "[1 \<mapsto> replicate (DIM * DIM) (0::real), 2 \<mapsto> replicate (DIM * DIM) 0, 3 \<mapsto> ?c]"
  have v: "valid_state DIM ?d ?m" by (simp add: valid_state_def)
  have c: "?m (dev_constSrc ?d) = Some ?c" by simp
  show ?thesis
    using anim_gpu_shows_unclamped[OF v c, of exact_arith] by blast
qed

section \<open>The 4x4 example\<close>

lemma clamp16:
  "SourceClampStep exact_arith (replicate 16 0) [1, 0, 0, 0, 0, 0, 0, 0, 0, 0, 0, 0, 0, 0, 0, 0]
     = [1, 0, 0, 0, 0, 0, 0, 0, 0, 0, 0, 0, 0, 0, 0, 0]"
  by (simp add: SourceClampStep_def clamp_cell_def exact_arith_def numeral_eq_Suc)

lemma upt16: "[0..<16] = [0, 1, 2, 3, 4, 5, 6, 7, 8, 9, 10, 11, 12, 13, 14, 15]"
  by (simp add: upt_rec)

lemma diffuse16:
  "DiffusionStep exact_arith 4 [1, 0, 0, 0, 0, 0, 0, 0, 0, 0, 0, 0, 0, 0, 0, 0]
     = [1 / 2, 1 / 4, 0, 0, 1 / 4, 0, 0, 0, 0, 0, 0, 0, 0, 0, 0, 0]"
  by (simp add: DiffusionStep_def upt16 stencil_def exact_arith_def SPEED_def Let_def)

lemma diffuse16_zero: "DiffusionStep exact_arith 4 (replicate 16 0) = replicate 16 0"
  using DiffusionStep_zero[OF zero_at_rest_exact, of 4] by (simp add: exact_arith_def)

lemma substep16:
  "substep exact_arith 4 \<lparr>dim_x = 1, dim_y = 1\<rparr> \<lparr>dim_x = 4, dim_y = 4\<rparr>
     (\<lparr>dev_inSrc = 1, dev_outSrc = 2, dev_constSrc = 3\<rparr>,
      [1 \<mapsto> replicate 16 0, 2 \<mapsto> replicate 16 0,
       3 \<mapsto> [1, 0, 0, 0, 0, 0, 0, 0, 0, 0, 0, 0, 0, 0, 0, 0]])
   = Some (\<lparr>dev_inSrc = 2, dev_outSrc = 1, dev_constSrc = 3\<rparr>,
      [1 \<mapsto> [1, 0, 0, 0, 0, 0, 0, 0, 0, 0, 0, 0, 0, 0, 0, 0],
       2 \<mapsto> [1 / 2, 1 / 4, 0, 0, 1 / 4, 0, 0, 0, 0, 0, 0, 0, 0, 0, 0, 0],
       3 \<mapsto> [1, 0, 0, 0, 0, 0, 0, 0, 0, 0, 0, 0, 0, 0, 0, 0]])"
proof -
  let ?d = "\<lparr>dev_inSrc = 1, dev_outSrc = 2, dev_constSrc = 3\<rparr>"
  let ?c = "[1, 0, 0, 0, 0, 0, 0, 0, 0, 0, 0, 0, 0, 0, 0, 0::real]"
  let ?m = "[1 \<mapsto> replicate 16 (0::real), 2 \<mapsto> replicate 16 0, 3 \<mapsto> ?c]"
  have v: "valid_state 4 ?d ?m" by (simp add: valid_state_def)
  have "substep exact_arith 4 \<lparr>dim_x = 1, dim_y = 1\<rparr> \<lparr>dim_x = 4, dim_y = 4\<rparr> (?d, ?m)
          = SpecSubstep exact_arith 4 (?d, ?m)"
    using v by (rule substep_Substep) simp_all
  also have "\<dots> = Some (\<lparr>dev_inSrc = 2, dev_outSrc = 1, dev_constSrc = 3\<rparr>,
      [1 \<mapsto> ?c, 2 \<mapsto> [1 / 2, 1 / 4, 0, 0, 1 / 4, 0, 0, 0, 0, 0, 0, 0, 0, 0, 0, 0], 3 \<mapsto> ?c])"
    by (simp add: SpecSubstep_def Let_def clamp16 diffuse16 fun_upd_twist)
  finally show ?thesis .
qed

text \<open>
  C6. The 4x4 example, run on one block of 4x4 threads with \<open>DIM = 4\<close>: all-zero grid,
  mask 1 at cell \<open>(0, 0)\<close>, one pass of the loop of \<open>anim_gpu\<close>. The clamp comes before
  the diffusion, so the new current grid is the diffusion of the clamped grid: cell
  \<open>(0, 0)\<close> holds \<open>1 + 0.25 * (1 + 0 + 1 + 0 - 1 * 4) = 0.5\<close>, cells \<open>(1, 0)\<close> and \<open>(0, 1)\<close>
  hold 0.25 (diffusion alone leaves them 0) and every other cell holds 0. The clamped
  grid, with 1 at cell \<open>(0, 0)\<close>, is the other buffer.
\<close>

theorem substep_example_4x4:
  "substep exact_arith 4 \<lparr>dim_x = 1, dim_y = 1\<rparr> \<lparr>dim_x = 4, dim_y = 4\<rparr>
     (\<lparr>dev_inSrc = 1, dev_outSrc = 2, dev_constSrc = 3\<rparr>,
      [1 \<mapsto> replicate 16 0, 2 \<mapsto> replicate 16 0,
       3 \<mapsto> [1, 0, 0, 0,
                 0, 0, 0, 0,
                 0, 0, 0, 0,
                 0, 0, 0, 0]])
   = Some (\<lparr>dev_inSrc = 2, dev_outSrc = 1, dev_constSrc = 3\<rparr>,
      [1 \<mapsto> [1, 0, 0, 0,
                 0, 0, 0, 0,
                 0, 0, 0, 0,
                 0, 0, 0, 0],
       2 \<mapsto> [1 / 2, 1 / 4, 0, 0,
                 1 / 4, 0, 0, 0,
                 0, 0, 0, 0,
                 0, 0, 0, 0],
       3 \<mapsto> [1, 0, 0, 0,
                 0, 0, 0, 0,
                 0, 0, 0, 0,
                 0, 0, 0, 0]])
   \<and> DiffusionStep exact_arith 4 (replicate 16 0) = replicate 16 0
   \<and> SPEED exact_arith = 1 / 4"
  using substep16 diffuse16_zero by (simp add: SPEED_def exact_arith_def)

theorem substep_example_4x4_counterexample:
  "map_option (\<lambda>g. g ! 0)
     (Option.bind
        (substep exact_arith 4 \<lparr>dim_x = 1, dim_y = 1\<rparr> \<lparr>dim_x = 4, dim_y = 4\<rparr>
           (\<lparr>dev_inSrc = 1, dev_outSrc = 2, dev_constSrc = 3\<rparr>,
            [1 \<mapsto> replicate 16 0, 2 \<mapsto> replicate 16 0,
             3 \<mapsto> [1, 0, 0, 0, 0, 0, 0, 0, 0, 0, 0, 0, 0, 0, 0, 0]]))
        current_grid) = Some (1 / 2)
   \<and> map_option (\<lambda>g. g ! 0)
     (Option.bind
        (substep exact_arith 4 \<lparr>dim_x = 1, dim_y = 1\<rparr> \<lparr>dim_x = 4, dim_y = 4\<rparr>
           (\<lparr>dev_inSrc = 1, dev_outSrc = 2, dev_constSrc = 3\<rparr>,
            [1 \<mapsto> replicate 16 0, 2 \<mapsto> replicate 16 0,
             3 \<mapsto> [1, 0, 0, 0, 0, 0, 0, 0, 0, 0, 0, 0, 0, 0, 0, 0]]))
        current_grid) \<noteq> Some 1"
  unfolding substep16 by (simp add: current_grid_def)

section \<open>The initial grids\<close>

lemma fold_row_nth:
  "j < length t \<Longrightarrow>
     fold (\<lambda>x t. t[f x := v]) xs t ! j = (if j \<in> f ` set xs then v else t ! j)"
proof (induction xs arbitrary: t)
  case Nil
  then show ?case by simp
next
  case (Cons x xs)
  then show ?case by (auto simp: nth_list_update)
qed

lemma length_fold_row [simp]: "length (fold (\<lambda>x t. t[f x := v]) xs t) = length t"
  by (induction xs arbitrary: t) simp_all

lemma length_fold_rect [simp]:
  "length (fold (\<lambda>y t. fold (\<lambda>x t. t[f x y := v]) xs t) ys t) = length t"
  by (induction ys arbitrary: t) simp_all

lemma fold_rect_nth:
  "j < length t \<Longrightarrow>
     fold (\<lambda>y t. fold (\<lambda>x t. t[f x y := v]) xs t) ys t ! j =
       (if \<exists>y \<in> set ys. \<exists>x \<in> set xs. f x y = j then v else t ! j)"
proof (induction ys arbitrary: t)
  case Nil
  then show ?case by simp
next
  case (Cons y ys)
  then show ?case by (auto simp: fold_row_nth)
qed

lemma rect_index_iff:
  assumes "x < D" "x1 \<le> D"
  shows "(\<exists>y' \<in> set [y0..<y1]. \<exists>x' \<in> set [x0..<x1]. x' + y' * D = x + y * D)
           \<longleftrightarrow> x0 \<le> x \<and> x < x1 \<and> y0 \<le> y \<and> y < y1"
proof
  assume "\<exists>y' \<in> set [y0..<y1]. \<exists>x' \<in> set [x0..<x1]. x' + y' * D = x + y * D"
  then obtain x' y' where p: "y0 \<le> y'" "y' < y1" "x0 \<le> x'" "x' < x1" "x' + y' * D = x + y * D"
    by auto
  have "x' < D" using p(4) assms(2) by simp
  then have "x' = (x + y * D) mod D" "y' = (x + y * D) div D"
    using cell_of_index[OF _ p(5)] by simp_all
  then have "x' = x" "y' = y" using assms(1) by simp_all
  then show "x0 \<le> x \<and> x < x1 \<and> y0 \<le> y \<and> y < y1" using p by simp
next
  assume "x0 \<le> x \<and> x < x1 \<and> y0 \<le> y \<and> y < y1"
  then show "\<exists>y' \<in> set [y0..<y1]. \<exists>x' \<in> set [x0..<x1]. x' + y' * D = x + y * D"
    by (intro bexI[of _ y] bexI[of _ x]) simp_all
qed

lemma point_index_iff:
  assumes "x < (D::nat)" "x0 < D"
  shows "D * y0 + x0 = x + y * D \<longleftrightarrow> x = x0 \<and> y = y0"
proof
  assume "D * y0 + x0 = x + y * D"
  then have e: "x0 + y0 * D = x + y * D"
    by (simp only: add.commute[of "D * y0"] mult.commute[of D y0])
  have "x0 = (x + y * D) mod D" "y0 = (x + y * D) div D"
    using cell_of_index[OF assms(2) e] by simp_all
  then show "x = x0 \<and> y = y0" using assms(1) by simp
next
  assume "x = x0 \<and> y = y0"
  then show "D * y0 + x0 = x + y * D" by (simp add: mult.commute)
qed

lemma nth_update_if:
  "j < length xs \<Longrightarrow> xs[i := v] ! j = (if i = j then v else xs ! j)"
  by (auto simp: nth_list_update)

lemma fold_init_nth:
  assumes "j < n" "n \<le> length t"
  shows "fold (\<lambda>i t. t[i := h i]) [0..<n] t ! j = h j"
  using assms by (intro fold_write_nth) auto

lemma length_fold_init:
  "length (fold (\<lambda>i temp. if P i then temp[i := z, i := v] else temp[i := z]) xs temp) = length temp"
  by (induction xs arbitrary: temp) simp_all

lemma seed_constSrc_length: "length (seed_constSrc ops temp) = length temp"
  unfolding seed_constSrc_def Let_def
  by (simp only: length_fold_rect length_list_update length_fold_init)

lemma seed_inSrc_length: "length (seed_inSrc ops temp) = length temp"
  unfolding seed_inSrc_def by (simp only: length_fold_rect)

lemma seed_constSrc_nth:
  assumes len: "length temp = DIM * DIM" and x: "x < DIM" and y: "y < DIM"
  shows "seed_constSrc ops temp ! (x + y * DIM) =
           (if 400 \<le> x \<and> x < 500 \<and> 800 \<le> y \<and> y < 900 then MIN_TEMP ops
            else if x = 700 \<and> y = 200 then MIN_TEMP ops
            else if x = 300 \<and> y = 300 then MIN_TEMP ops
            else if x = 100 \<and> y = 700 then MIN_TEMP ops
            else if x = 100 \<and> y = 100
              then fdiv ops (fadd ops (MAX_TEMP ops) (MIN_TEMP ops)) (fconst ops 2)
            else if 300 < x \<and> x < 600 \<and> 310 < y \<and> y < 601 then MAX_TEMP ops
            else fconst ops 0)"
proof -
  define j where "j = x + y * DIM"
  have j: "j < DIM * DIM" unfolding j_def using x y by (rule cell_in_grid)
  have xy: "j mod DIM = x" "j div DIM = y" using x by (simp_all add: j_def)
  let ?h = "\<lambda>i. if i mod DIM > 300 \<and> i mod DIM < 600 \<and> i div DIM > 310 \<and> i div DIM < 601
                 then MAX_TEMP ops else fconst ops 0"
  define t1 where "t1 = fold (\<lambda>i temp.
                   let temp = temp[i := fconst ops 0];
                       x = i mod DIM;
                       y = i div DIM
                   in if x > 300 \<and> x < 600 \<and> y > 310 \<and> y < 601
                      then temp[i := MAX_TEMP ops] else temp) [0..<DIM * DIM] temp"
  define t5 where "t5 = t1[DIM * 100 + 100 := fdiv ops (fadd ops (MAX_TEMP ops) (MIN_TEMP ops)) (fconst ops 2),
                          DIM * 700 + 100 := MIN_TEMP ops,
                          DIM * 300 + 300 := MIN_TEMP ops,
                          DIM * 200 + 700 := MIN_TEMP ops]"
  have seed: "seed_constSrc ops temp =
                fold (\<lambda>y temp. fold (\<lambda>x temp. temp[x + y * DIM := MIN_TEMP ops]) [400..<500] temp)
                  [800..<900] t5"
    by (simp only: seed_constSrc_def Let_def t1_def t5_def)
  have "(\<lambda>i temp.
                   let temp = temp[i := fconst ops 0];
                       x = i mod DIM;
                       y = i div DIM
                   in if x > 300 \<and> x < 600 \<and> y > 310 \<and> y < 601
                      then temp[i := MAX_TEMP ops] else temp) = (\<lambda>i t. t[i := ?h i])"
    by (intro ext) (simp add: Let_def)
  then have t1: "t1 = fold (\<lambda>i t. t[i := ?h i]) [0..<DIM * DIM] temp"
    by (simp only: t1_def)
  have n1: "t1 ! j = ?h j"
    unfolding t1 using j len fold_init_nth[of j "DIM * DIM" temp ?h] by simp
  have l1: "length t1 = DIM * DIM"
    unfolding t1_def Let_def using len by (simp only: length_fold_init)
  have l5: "j < length t5" "j < length t1"
    unfolding t5_def using j l1 by (simp_all only: length_list_update)
  have d: "100 < DIM" "300 < DIM" "700 < DIM" "500 \<le> DIM" by (simp_all add: DIM_def)
  have p: "DIM * 100 + 100 = j \<longleftrightarrow> x = 100 \<and> y = 100"
    "DIM * 700 + 100 = j \<longleftrightarrow> x = 100 \<and> y = 700"
    "DIM * 300 + 300 = j \<longleftrightarrow> x = 300 \<and> y = 300"
    "DIM * 200 + 700 = j \<longleftrightarrow> x = 700 \<and> y = 200"
    unfolding j_def using point_index_iff[OF x] d by simp_all
  have r: "(\<exists>y' \<in> set [800..<900]. \<exists>x' \<in> set [400..<500]. x' + y' * DIM = j)
             \<longleftrightarrow> 400 \<le> x \<and> x < 500 \<and> 800 \<le> y \<and> y < 900"
    unfolding j_def using x d(4) by (rule rect_index_iff)
  have n5: "t5 ! j =
           (if x = 700 \<and> y = 200 then MIN_TEMP ops
            else if x = 300 \<and> y = 300 then MIN_TEMP ops
            else if x = 100 \<and> y = 700 then MIN_TEMP ops
            else if x = 100 \<and> y = 100
              then fdiv ops (fadd ops (MAX_TEMP ops) (MIN_TEMP ops)) (fconst ops 2)
            else t1 ! j)"
    unfolding t5_def using l5(2) by (simp add: nth_update_if p)
  have "seed_constSrc ops temp ! j =
          (if 400 \<le> x \<and> x < 500 \<and> 800 \<le> y \<and> y < 900 then MIN_TEMP ops else t5 ! j)"
    unfolding seed by (simp only: fold_rect_nth[OF l5(1)] r)
  then show ?thesis
    unfolding n5 n1 xy j_def[symmetric] by simp
qed

lemma seed_inSrc_nth:
  assumes len: "length temp = DIM * DIM" and x: "x < DIM" and y: "y < DIM"
  shows "seed_inSrc ops temp ! (x + y * DIM) =
           (if x < 200 \<and> 800 \<le> y then MAX_TEMP ops else temp ! (x + y * DIM))"
proof -
  have j: "x + y * DIM < length temp" using cell_in_grid[OF x y] len by simp
  have d: "200 \<le> DIM" by (simp add: DIM_def)
  have r: "(\<exists>y' \<in> set [800..<DIM]. \<exists>x' \<in> set [0..<200]. x' + y' * DIM = x + y * DIM)
             \<longleftrightarrow> 0 \<le> x \<and> x < 200 \<and> 800 \<le> y \<and> y < DIM"
    using x d by (rule rect_index_iff)
  have "seed_inSrc ops temp ! (x + y * DIM) =
          (if 0 \<le> x \<and> x < 200 \<and> 800 \<le> y \<and> y < DIM then MAX_TEMP ops else temp ! (x + y * DIM))"
    unfolding seed_inSrc_def by (simp only: fold_rect_nth[OF j] r)
  then show ?thesis using y by simp
qed

lemma main_init_eq:
  "main_init ops temp out0 =
     (\<lparr>dev_inSrc = 1, dev_outSrc = 2, dev_constSrc = 3\<rparr>,
      [3 \<mapsto> seed_constSrc ops temp, 1 \<mapsto> seed_inSrc ops (seed_constSrc ops temp), 2 \<mapsto> out0])"
  by (simp add: main_init_def Let_def)

lemma main_init_valid:
  assumes "length temp = DIM * DIM" "length out0 = DIM * DIM"
  shows "case main_init ops temp out0 of (d, m) \<Rightarrow> valid_state DIM d m"
  using assms
  by (simp add: main_init_eq valid_state_def seed_constSrc_length seed_inSrc_length)

text \<open>
  C5. The grid \<open>main\<close> copies to \<^verbatim>\<open>dev_inSrc\<close> is made on the array that already holds
  the mask: inside the rectangle \<open>x < 200\<close>, \<open>800 \<le> y\<close> it holds \<open>MAX_TEMP\<close>, and at every
  other cell it holds the mask's value, which is 0 only outside the mask's regions.
  The mask is 0 on the whole rectangle, so the hot region is apart from the mask's
  regions.
\<close>

theorem main_init_current_grid:
  assumes "length temp = DIM * DIM" and "x < DIM" and "y < DIM"
  shows "\<exists>d m cur cmask.
           main_init ops temp out0 = (d, m)
         \<and> m (dev_inSrc d) = Some cur \<and> m (dev_constSrc d) = Some cmask
         \<and> length cur = DIM * DIM \<and> length cmask = DIM * DIM
         \<and> cur ! (x + y * DIM) =
             (if x < 200 \<and> 800 \<le> y then MAX_TEMP ops else cmask ! (x + y * DIM))
         \<and> cmask ! (x + y * DIM) =
             (if 400 \<le> x \<and> x < 500 \<and> 800 \<le> y \<and> y < 900 then MIN_TEMP ops
              else if x = 700 \<and> y = 200 then MIN_TEMP ops
              else if x = 300 \<and> y = 300 then MIN_TEMP ops
              else if x = 100 \<and> y = 700 then MIN_TEMP ops
              else if x = 100 \<and> y = 100
                then fdiv ops (fadd ops (MAX_TEMP ops) (MIN_TEMP ops)) (fconst ops 2)
              else if 300 < x \<and> x < 600 \<and> 310 < y \<and> y < 601 then MAX_TEMP ops
              else fconst ops 0)
         \<and> (x < 200 \<and> 800 \<le> y \<longrightarrow> cmask ! (x + y * DIM) = fconst ops 0)"
proof -
  let ?c = "seed_constSrc ops temp"
  let ?g = "seed_inSrc ops ?c"
  let ?d = "\<lparr>dev_inSrc = 1, dev_outSrc = 2, dev_constSrc = 3\<rparr>"
  let ?m = "[3 \<mapsto> ?c, 1 \<mapsto> ?g, 2 \<mapsto> out0]"
  have lc: "length ?c = DIM * DIM" using assms(1) by (simp add: seed_constSrc_length)
  have lg: "length ?g = DIM * DIM" using lc by (simp add: seed_inSrc_length)
  have g: "?g ! (x + y * DIM) =
             (if x < 200 \<and> 800 \<le> y then MAX_TEMP ops else ?c ! (x + y * DIM))"
    using lc assms(2,3) by (rule seed_inSrc_nth)
  have c: "?c ! (x + y * DIM) =
             (if 400 \<le> x \<and> x < 500 \<and> 800 \<le> y \<and> y < 900 then MIN_TEMP ops
              else if x = 700 \<and> y = 200 then MIN_TEMP ops
              else if x = 300 \<and> y = 300 then MIN_TEMP ops
              else if x = 100 \<and> y = 700 then MIN_TEMP ops
              else if x = 100 \<and> y = 100
                then fdiv ops (fadd ops (MAX_TEMP ops) (MIN_TEMP ops)) (fconst ops 2)
              else if 300 < x \<and> x < 600 \<and> 310 < y \<and> y < 601 then MAX_TEMP ops
              else fconst ops 0)"
    using assms by (rule seed_constSrc_nth)
  have z: "x < 200 \<and> 800 \<le> y \<longrightarrow> ?c ! (x + y * DIM) = fconst ops 0"
    unfolding c by auto
  have "main_init ops temp out0 = (?d, ?m)" by (rule main_init_eq)
  moreover have "?m (dev_inSrc ?d) = Some ?g" "?m (dev_constSrc ?d) = Some ?c" by simp_all
  ultimately show ?thesis using lc lg g c z by blast
qed

theorem main_init_current_grid_witness:
  "\<exists>d m cur cmask.
      main_init exact_arith (replicate (DIM * DIM) 7) (replicate (DIM * DIM) 9) = (d, m)
    \<and> m (dev_inSrc d) = Some cur \<and> m (dev_constSrc d) = Some cmask
    \<and> cur ! (100 + 900 * DIM) = 1 \<and> cmask ! (100 + 900 * DIM) = 0"
proof -
  have n: "100 < DIM" "900 < DIM" by (simp_all add: DIM_def)
  have l: "length (replicate (DIM * DIM) (7::real)) = DIM * DIM" by simp
  have "\<exists>d m cur cmask.
      main_init exact_arith (replicate (DIM * DIM) 7) (replicate (DIM * DIM) 9) = (d, m)
    \<and> m (dev_inSrc d) = Some cur \<and> m (dev_constSrc d) = Some cmask
    \<and> length cur = DIM * DIM \<and> length cmask = DIM * DIM
    \<and> cur ! (100 + 900 * DIM) = 1 \<and> cmask ! (100 + 900 * DIM) = 0"
    using main_init_current_grid[OF l n, of exact_arith "replicate (DIM * DIM) 9"]
    by (simp add: MAX_TEMP_def exact_arith_def)
  then show ?thesis by blast
qed

theorem main_init_current_grid_counterexample:
  "map_option (\<lambda>g. g ! (301 + 311 * DIM))
     (current_grid (main_init exact_arith (replicate (DIM * DIM) 0) (replicate (DIM * DIM) 0)))
     = Some (MAX_TEMP exact_arith)
   \<and> MAX_TEMP exact_arith \<noteq> fconst exact_arith 0
   \<and> \<not> ((301::nat) < 200 \<and> (800::nat) \<le> 311)"
proof -
  have n: "301 < DIM" "311 < DIM" by (simp_all add: DIM_def)
  have l: "length (replicate (DIM * DIM) (0::real)) = DIM * DIM" by simp
  have l': "length (seed_constSrc exact_arith (replicate (DIM * DIM) (0::real))) = DIM * DIM"
    by (simp add: seed_constSrc_length)
  have "seed_inSrc exact_arith (seed_constSrc exact_arith (replicate (DIM * DIM) 0)) ! (301 + 311 * DIM)
          = MAX_TEMP exact_arith"
    unfolding seed_inSrc_nth[OF l' n] seed_constSrc_nth[OF l n] by simp
  then show ?thesis
    by (simp add: main_init_eq current_grid_def MAX_TEMP_def exact_arith_def)
qed

end
